theory Spec2Isabelle
  imports Complex_Main "HOL-Library.Sublist" "HOL-Library.List_Lexorder" "HOL-Library.Char_ord"
begin

section \<open>Data model of the workflow engine (src/lib/workflow-engine.ts)\<close>

text \<open>
  The server keeps its state in a relational database reached through Prisma. Each table
  is a list of rows; a row is a record. Identifiers are strings, instants are
  milliseconds since the epoch (\<open>Date.getTime()\<close>), and the current instant
  (\<open>new Date()\<close>) is a parameter \<open>now\<close> of every operation that reads the clock.
\<close>

datatype task_status = Pending | Queued | InProgress | Done | Blocked | Cancelled

datatype order_status = ONew | OPreparing | OReady | ODelivering | ODelivered | OCancelled

datatype item_status = IPending | IInProgress | IDone | ICancelled

record task_instance =
  t_id :: string
  t_tenantId :: string
  t_orderId :: string
  t_orderItemId :: string
  t_taskDefId :: string
  t_name :: string
  t_stationId :: "string option"
  t_status :: task_status
  t_dependsOn :: "string list"
  t_estimatedMinutes :: "rat option"
  t_assignedToId :: "string option"
  t_startedAt :: "int option"
  t_completedAt :: "int option"
  t_completedById :: "string option"

record subtask_instance =
  s_id :: string
  s_taskInstanceId :: string
  s_tenantId :: string
  s_subtaskDefId :: string
  s_name :: string
  s_isCompleted :: bool
  s_completedAt :: "int option"
  s_completedById :: "string option"

record task_duration =
  d_tenantId :: string
  d_workflowTemplateId :: string
  d_taskDefId :: string
  d_stationId :: "string option"
  d_durationSeconds :: int
  d_recordedAt :: int

text \<open>
  An order item row carries, for \<open>completeTask\<close>, the result of the join
  \<open>orderItem?.menuItem?.workflowTemplateId\<close>.
\<close>

record order_item =
  oi_id :: string
  oi_orderId :: string
  oi_status :: item_status
  oi_workflowTemplateId :: "string option"

record order_row =
  o_id :: string
  o_status :: order_status
  o_actualReadyAt :: "int option"
  o_estimatedReadyAt :: "int option"

record station =
  st_id :: string
  st_tenantId :: string
  st_name :: string
  st_capacity :: int
  st_taskTypes :: "string list"
  st_isActive :: bool

text \<open>The JSON workflow definition stored in a workflow template.\<close>

record subtask_def =
  sd_id :: string
  sd_name :: string
  sd_optional :: bool

record task_def =
  td_id :: string
  td_name :: string
  td_station_type :: string
  td_estimated_minutes :: rat
  td_depends_on :: "string list"
  td_subtasks :: "subtask_def list"

record phase_def =
  pd_id :: string
  pd_name :: string
  pd_order :: int
  pd_tasks :: "task_def list"

record workflow_template =
  wt_id :: string
  wt_phases :: "phase_def list"

record menu_item =
  mi_id :: string
  mi_tenantId :: string
  mi_workflowTemplateId :: "string option"

datatype realtime_event =
  TaskUpdated string task_status
| TaskCompleted string
| SubtaskCompleted string
| OrderUpdated string order_status

record db =
  taskInstances :: "task_instance list"
  subtaskInstances :: "subtask_instance list"
  taskDurations :: "task_duration list"
  orderItems :: "order_item list"
  orders :: "order_row list"
  stations :: "station list"
  workflowTemplates :: "workflow_template list"
  menuItems :: "menu_item list"
  emitted :: "realtime_event list"

datatype wf_error =
  TaskNonTrovato
| TaskNonAvviabile task_status
| TaskNonCompletabile task_status
| SubtaskNonTrovato

record completion =
  orderComplete :: bool
  orderReady :: bool

section \<open>Activation\<close>

text \<open>\<open>prisma.taskInstance.update({ where: { id }, data: { status } })\<close>.\<close>

definition setTaskStatus :: "string \<Rightarrow> task_status \<Rightarrow> task_instance list \<Rightarrow> task_instance list" where
  "setTaskStatus i st ts = map (\<lambda>t. if t_id t = i then t\<lparr>t_status := st\<rparr> else t) ts"

text \<open>
  \<open>prisma.taskInstance.count({ where: { id: { in: deps }, status: 'done' } })\<close>:
  the number of rows whose id occurs in \<open>deps\<close> and whose status is \<open>done\<close>.
\<close>

definition completedDeps :: "task_instance list \<Rightarrow> string list \<Rightarrow> nat" where
  "completedDeps ts deps = length (filter (\<lambda>t. t_id t \<in> set deps \<and> t_status t = Done) ts)"

text \<open>
  The loop of \<open>activateReadyTasks\<close> over the rows found pending. Each iteration reads the
  snapshot row \<open>task\<close> and queries the current table.
\<close>

fun activateLoop :: "task_instance list \<Rightarrow> task_instance list \<Rightarrow> nat \<Rightarrow> task_instance list \<times> nat" where
  "activateLoop [] ts activatedCount = (ts, activatedCount)"
| "activateLoop (task # rest) ts activatedCount =
     (let deps = t_dependsOn task in
      if length deps = 0 then
        activateLoop rest (setTaskStatus (t_id task) Queued ts) (activatedCount + 1)
      else if completedDeps ts deps = length deps then
        activateLoop rest (setTaskStatus (t_id task) Queued ts) (activatedCount + 1)
      else activateLoop rest ts activatedCount)"

definition pendingTasks :: "string \<Rightarrow> string \<Rightarrow> task_instance list \<Rightarrow> task_instance list" where
  "pendingTasks tenantId orderId ts =
     filter (\<lambda>t. t_tenantId t = tenantId \<and> t_orderId t = orderId \<and> t_status t = Pending) ts"

definition activateReadyTasks :: "string \<Rightarrow> string \<Rightarrow> db \<Rightarrow> nat \<times> db" where
  "activateReadyTasks tenantId orderId d =
     (let (ts, n) = activateLoop (pendingTasks tenantId orderId (taskInstances d)) (taskInstances d) 0
      in (n, d\<lparr>taskInstances := ts\<rparr>))"

section \<open>Start, complete, subtask completion\<close>

definition findTask :: "string \<Rightarrow> string \<Rightarrow> task_instance list \<Rightarrow> task_instance option" where
  "findTask taskId tenantId ts = find (\<lambda>t. t_id t = taskId \<and> t_tenantId t = tenantId) ts"

definition startTask :: "string \<Rightarrow> string \<Rightarrow> string \<Rightarrow> int \<Rightarrow> db \<Rightarrow> wf_error + db" where
  "startTask taskId userId tenantId now d =
     (case findTask taskId tenantId (taskInstances d) of
        None \<Rightarrow> Inl TaskNonTrovato
      | Some task \<Rightarrow>
          if t_status task \<noteq> Queued then Inl (TaskNonAvviabile (t_status task))
          else Inr (d\<lparr>taskInstances :=
                         map (\<lambda>t. if t_id t = taskId
                                  then t\<lparr>t_status := InProgress, t_assignedToId := Some userId,
                                         t_startedAt := Some now\<rparr>
                                  else t) (taskInstances d),
                       emitted := emitted d @ [TaskUpdated taskId InProgress]\<rparr>))"

definition checkOrderCompletion :: "string \<Rightarrow> string \<Rightarrow> int \<Rightarrow> db \<Rightarrow> completion \<times> db" where
  "checkOrderCompletion tenantId orderId now d =
     (let allTasks = filter (\<lambda>t. t_tenantId t = tenantId \<and> t_orderId t = orderId) (taskInstances d);
          allDone = list_all (\<lambda>t. t_status t = Done \<or> t_status t = Cancelled) allTasks
      in if allDone then
           (\<lparr>orderComplete = True, orderReady = True\<rparr>,
            d\<lparr>orders := map (\<lambda>r. if o_id r = orderId
                                  then r\<lparr>o_status := OReady, o_actualReadyAt := Some now\<rparr> else r)
                             (orders d),
              orderItems := map (\<lambda>i. if oi_orderId i = orderId \<and> oi_status i \<noteq> ICancelled
                                      then i\<lparr>oi_status := IDone\<rparr> else i) (orderItems d),
              emitted := emitted d @ [OrderUpdated orderId OReady]\<rparr>)
         else if list_ex (\<lambda>t. t_status t = InProgress) allTasks then
           (\<lparr>orderComplete = False, orderReady = False\<rparr>,
            d\<lparr>orders := map (\<lambda>r. if o_id r = orderId then r\<lparr>o_status := OPreparing\<rparr> else r)
                             (orders d)\<rparr>)
         else (\<lparr>orderComplete = False, orderReady = False\<rparr>, d))"

text \<open>\<open>Math.round\<close> of a quotient of integers by 1000: halves round towards plus infinity.\<close>

definition roundSeconds :: "int \<Rightarrow> int" where
  "roundSeconds ms = (ms + 500) div 1000"

definition recordDuration :: "task_instance \<Rightarrow> string \<Rightarrow> int \<Rightarrow> db \<Rightarrow> db" where
  "recordDuration task tenantId now d =
     (case t_startedAt task of
        None \<Rightarrow> d
      | Some started \<Rightarrow>
          (case find (\<lambda>i. oi_id i = t_orderItemId task) (orderItems d) of
             None \<Rightarrow> d
           | Some orderItem \<Rightarrow>
               (case oi_workflowTemplateId orderItem of
                  None \<Rightarrow> d
                | Some wt \<Rightarrow>
                    d\<lparr>taskDurations := taskDurations d @
                        [\<lparr>d_tenantId = tenantId, d_workflowTemplateId = wt,
                          d_taskDefId = t_taskDefId task, d_stationId = t_stationId task,
                          d_durationSeconds = roundSeconds (now - started),
                          d_recordedAt = now\<rparr>]\<rparr>)))"

definition autoCompleteSubtasks :: "string \<Rightarrow> string \<Rightarrow> int \<Rightarrow> db \<Rightarrow> db" where
  "autoCompleteSubtasks taskId userId now d =
     (let subtasks = filter (\<lambda>s. s_taskInstanceId s = taskId) (subtaskInstances d);
          incompleteRequired = filter (\<lambda>s. \<not> s_isCompleted s) subtasks
      in if length incompleteRequired > 0 then
           d\<lparr>subtaskInstances :=
               map (\<lambda>s. if s_taskInstanceId s = taskId \<and> \<not> s_isCompleted s
                        then s\<lparr>s_isCompleted := True, s_completedAt := Some now,
                               s_completedById := Some userId\<rparr>
                        else s) (subtaskInstances d)\<rparr>
         else d)"

definition completeTask :: "string \<Rightarrow> string \<Rightarrow> string \<Rightarrow> int \<Rightarrow> db \<Rightarrow> wf_error + (completion \<times> db)" where
  "completeTask taskId userId tenantId now d =
     (case findTask taskId tenantId (taskInstances d) of
        None \<Rightarrow> Inl TaskNonTrovato
      | Some task \<Rightarrow>
          if t_status task \<notin> set [Queued, InProgress] then Inl (TaskNonCompletabile (t_status task))
          else
            let d1 = autoCompleteSubtasks taskId userId now d;
                d2 = recordDuration task tenantId now d1;
                d3 = d2\<lparr>taskInstances :=
                          map (\<lambda>t. if t_id t = taskId
                                   then t\<lparr>t_status := Done, t_completedAt := Some now,
                                          t_completedById := Some userId,
                                          t_startedAt := (case t_startedAt task of
                                                            None \<Rightarrow> Some now | Some s \<Rightarrow> Some s)\<rparr>
                                   else t) (taskInstances d2)\<rparr>;
                d4 = snd (activateReadyTasks tenantId (t_orderId task) d3);
                d5 = d4\<lparr>emitted := emitted d4 @ [TaskCompleted taskId]\<rparr>
            in Inr (checkOrderCompletion tenantId (t_orderId task) now d5))"

definition completeSubtask :: "string \<Rightarrow> string \<Rightarrow> string \<Rightarrow> string \<Rightarrow> int \<Rightarrow> db \<Rightarrow> wf_error + db" where
  "completeSubtask taskId subtaskId userId tenantId now d =
     (case find (\<lambda>s. s_id s = subtaskId \<and> s_taskInstanceId s = taskId \<and> s_tenantId s = tenantId)
                (subtaskInstances d) of
        None \<Rightarrow> Inl SubtaskNonTrovato
      | Some subtask \<Rightarrow>
          if s_isCompleted subtask then Inr d
          else Inr (d\<lparr>subtaskInstances :=
                         map (\<lambda>s. if s_id s = subtaskId
                                  then s\<lparr>s_isCompleted := True, s_completedAt := Some now,
                                         s_completedById := Some userId\<rparr>
                                  else s) (subtaskInstances d),
                       emitted := emitted d @ [SubtaskCompleted subtaskId]\<rparr>))"

section \<open>JavaScript maps and numbers\<close>

text \<open>
  A JavaScript \<open>Map\<close> iterates in insertion order, and \<open>set\<close> on a present key keeps the
  key's position. It is an association list with distinct keys; \<open>get\<close> is \<open>map_of\<close>.
\<close>

fun mapSet :: "'k \<Rightarrow> 'v \<Rightarrow> ('k \<times> 'v) list \<Rightarrow> ('k \<times> 'v) list" where
  "mapSet k v [] = [(k, v)]"
| "mapSet k v ((k', v') # m) = (if k = k' then (k, v) # m else (k', v') # mapSet k v m)"

subsection \<open>Numbers\<close>

text \<open>
  A JavaScript number is an IEEE 754 binary64 value: a finite value (a rational
  \<open>m * 2^e\<close> with \<open>\<bar>m\<bar> < 2^53\<close> and \<open>- 1074 \<le> e\<close>), an infinity, or NaN. The two zeros are
  one value here: the estimator divides only by capacities, array lengths and constants,
  which are never the negative zero, and nothing else in it tells the zeros apart.
\<close>

datatype number = Fin rat | PosInf | NegInf | NaN

function bitLength :: "int \<Rightarrow> int" where
  "bitLength n = (if n \<le> 0 then 0 else 1 + bitLength (n div 2))"
  by pat_completeness auto
termination by (relation "measure nat") auto

declare bitLength.simps [simp del]

function twoTo :: "int \<Rightarrow> int" where
  "twoTo e = (if e \<le> 0 then 1
              else (let h = twoTo (e div 2) in if even e then h * h else 2 * (h * h)))"
  by pat_completeness auto
termination by (relation "measure nat") auto

declare twoTo.simps [simp del]

text \<open>The power of two with an integer exponent.\<close>

definition pow2 :: "int \<Rightarrow> rat" where
  "pow2 e = (if 0 \<le> e then of_int (twoTo e) else 1 / of_int (twoTo (- e)))"

text \<open>For a positive \<open>x\<close>, the exponent \<open>l\<close> with \<open>2^l \<le> x < 2^(l + 1)\<close>.\<close>

definition floorLog2 :: "rat \<Rightarrow> int" where
  "floorLog2 x =
     (let pq = quotient_of x;
          e = bitLength (fst pq) - bitLength (snd pq)
      in if pow2 e \<le> x then e else e - 1)"

definition roundHalfEven :: "rat \<Rightarrow> int" where
  "roundHalfEven x =
     (let n = \<lfloor>x\<rfloor>; f = x - of_int n
      in if f < 1 / 2 then n else if 1 / 2 < f then n + 1 else if even n then n else n + 1)"

text \<open>
  The value a real result is rounded to: the nearest multiple of the spacing
  \<open>2^(max l (- 1022) - 52)\<close> of the doubles around it, a tie going to the even multiple, and
  an infinity when that is \<open>2^1024\<close> or more in magnitude.
\<close>

definition roundDouble :: "rat \<Rightarrow> number" where
  "roundDouble x =
     (if x = 0 then Fin 0
      else (let l = floorLog2 \<bar>x\<bar>;
                q = pow2 (max l (- 1022) - 52);
                y = of_int (roundHalfEven (x / q)) * q
            in if l < 1023 then Fin y
               else if pow2 1024 \<le> \<bar>y\<bar> then (if 0 < x then PosInf else NegInf) else Fin y))"

text \<open>The operators \<open>+\<close>, \<open>-\<close>, \<open>*\<close> and \<open>/\<close>.\<close>

fun fadd :: "number \<Rightarrow> number \<Rightarrow> number" where
  "fadd (Fin x) (Fin y) = roundDouble (x + y)"
| "fadd NaN b = NaN"
| "fadd a NaN = NaN"
| "fadd PosInf NegInf = NaN"
| "fadd NegInf PosInf = NaN"
| "fadd PosInf b = PosInf"
| "fadd a PosInf = PosInf"
| "fadd NegInf b = NegInf"
| "fadd a NegInf = NegInf"

fun fneg :: "number \<Rightarrow> number" where
  "fneg (Fin x) = Fin (- x)"
| "fneg PosInf = NegInf"
| "fneg NegInf = PosInf"
| "fneg NaN = NaN"

definition fsub :: "number \<Rightarrow> number \<Rightarrow> number" where
  "fsub a b = fadd a (fneg b)"

fun fmul :: "number \<Rightarrow> number \<Rightarrow> number" where
  "fmul (Fin x) (Fin y) = roundDouble (x * y)"
| "fmul NaN b = NaN"
| "fmul a NaN = NaN"
| "fmul (Fin x) b = (if x = 0 then NaN else if (0 < x) = (b = PosInf) then PosInf else NegInf)"
| "fmul a (Fin y) = (if y = 0 then NaN else if (0 < y) = (a = PosInf) then PosInf else NegInf)"
| "fmul a b = (if a = b then PosInf else NegInf)"

text \<open>A zero divisor is the positive zero (see above).\<close>

fun fdiv :: "number \<Rightarrow> number \<Rightarrow> number" where
  "fdiv (Fin x) (Fin y) =
     (if y = 0 then (if x = 0 then NaN else if 0 < x then PosInf else NegInf)
      else roundDouble (x / y))"
| "fdiv NaN b = NaN"
| "fdiv a NaN = NaN"
| "fdiv (Fin x) b = Fin 0"
| "fdiv PosInf (Fin y) = (if 0 \<le> y then PosInf else NegInf)"
| "fdiv NegInf (Fin y) = (if 0 \<le> y then NegInf else PosInf)"
| "fdiv a b = NaN"

text \<open>
  The numbers in their order, from minus infinity to plus infinity. NaN is put below
  all of them to make the order total; the comparisons of JavaScript, which are false as
  soon as one side is NaN, are \<open>jsGt\<close> and its like.
\<close>

fun numberLe :: "number \<Rightarrow> number \<Rightarrow> bool" where
  "numberLe NaN b = True"
| "numberLe a NaN = False"
| "numberLe NegInf b = True"
| "numberLe a NegInf = False"
| "numberLe a PosInf = True"
| "numberLe PosInf b = False"
| "numberLe (Fin x) (Fin y) = (x \<le> y)"

instantiation number :: "{zero, linorder}"
begin

definition zero_number :: number where
  "zero_number = Fin 0"

definition less_eq_number :: "number \<Rightarrow> number \<Rightarrow> bool" where
  "less_eq_number a b = numberLe a b"

definition less_number :: "number \<Rightarrow> number \<Rightarrow> bool" where
  "less_number a b = (numberLe a b \<and> \<not> numberLe b a)"

instance
proof
  fix x y z :: number
  show "(x < y) = (x \<le> y \<and> \<not> y \<le> x)"
    by (simp add: less_number_def less_eq_number_def)
  show "x \<le> x"
    by (cases x) (simp_all add: less_eq_number_def)
  show "x \<le> y \<Longrightarrow> y \<le> z \<Longrightarrow> x \<le> z"
    by (cases x; cases y; cases z) (simp_all add: less_eq_number_def)
  show "x \<le> y \<Longrightarrow> y \<le> x \<Longrightarrow> x = y"
    by (cases x; cases y) (simp_all add: less_eq_number_def)
  show "x \<le> y \<or> y \<le> x"
    by (cases x; cases y) (auto simp add: less_eq_number_def)
qed

end

text \<open>\<open>a > b\<close> in JavaScript.\<close>

definition jsGt :: "number \<Rightarrow> number \<Rightarrow> bool" where
  "jsGt a b = (a \<noteq> NaN \<and> b \<noteq> NaN \<and> b < a)"

text \<open>
  \<open>Math.max(...xs)\<close> and \<open>Math.min(...xs)\<close>: NaN as soon as one argument is NaN, and
  otherwise the largest (smallest) argument, starting from minus (plus) infinity.
\<close>

fun maxFrom :: "number \<Rightarrow> number list \<Rightarrow> number" where
  "maxFrom highest [] = highest"
| "maxFrom highest (x # xs) =
     (if x = NaN then NaN else maxFrom (if jsGt x highest then x else highest) xs)"

definition mathMax :: "number list \<Rightarrow> number" where
  "mathMax xs = maxFrom NegInf xs"



text \<open>
  \<open>Math.round\<close>: the nearest integer, halves towards plus infinity. \<open>Math.ceil\<close>: the
  least integer that is not smaller. Both are exact, and leave an infinity or NaN as
  it is.
\<close>

definition mathRound :: "number \<Rightarrow> number" where
  "mathRound a = (case a of Fin x \<Rightarrow> Fin (of_int \<lfloor>x + 1 / 2\<rfloor>) | _ \<Rightarrow> a)"

definition mathCeil :: "number \<Rightarrow> number" where
  "mathCeil a = (case a of Fin x \<Rightarrow> Fin (of_int \<lceil>x\<rceil>) | _ \<Rightarrow> a)"

text \<open>
  An integer as a number (exact below \<open>2^53\<close> in magnitude, as every time value and
  every array length is), and \<open>Number(x)\<close> of a \<open>Decimal\<close>.
\<close>

definition ofInt :: "int \<Rightarrow> number" where
  "ofInt i = roundDouble (of_int i)"

definition ofNat :: "nat \<Rightarrow> number" where
  "ofNat n = roundDouble (of_nat n)"

definition ofDecimal :: "rat \<Rightarrow> number" where
  "ofDecimal m = roundDouble m"

text \<open>
  \<open>new Date(x)\<close>: the integral part of a finite number of milliseconds of at most
  8.64e15 in magnitude, and the invalid date (\<open>None\<close>) otherwise.
\<close>

definition newDate :: "number \<Rightarrow> int option" where
  "newDate a =
     (case a of
        Fin x \<Rightarrow> if \<bar>x\<bar> \<le> 8640000000000000
                 then Some (if 0 \<le> x then \<lfloor>x\<rfloor> else \<lceil>x\<rceil>) else None
      | _ \<Rightarrow> None)"

section \<open>Station queues (src/lib/eta.ts)\<close>

record station_queue =
  q_stationId :: string
  q_stationName :: string
  q_capacity :: int
  q_queuedTasks :: nat
  q_avgTaskMinutes :: number

text \<open>
  \<open>Number(t.estimatedMinutes) || 5\<close>: a missing estimate is \<open>Number(null) = 0\<close>, and
  zero is falsy, so both give 5.
\<close>

definition numberOr5 :: "rat option \<Rightarrow> number" where
  "numberOr5 em =
     (case em of
        None \<Rightarrow> Fin 5
      | Some m \<Rightarrow> if ofDecimal m = Fin 0 \<or> ofDecimal m = NaN then Fin 5 else ofDecimal m)"

definition stationQueueOf :: "db \<Rightarrow> station \<Rightarrow> station_queue" where
  "stationQueueOf d station =
     (let taskInstances = filter (\<lambda>t. t_stationId t = Some (st_id station)
                                      \<and> t_status t \<in> set [Queued, InProgress]) (taskInstances d);
          totalEstimated = foldl (\<lambda>sum t. fadd sum (numberOr5 (t_estimatedMinutes t))) (Fin 0)
                             taskInstances;
          avgTask = (if length taskInstances > 0
                     then fdiv totalEstimated (ofNat (length taskInstances)) else Fin 5)
      in \<lparr>q_stationId = st_id station, q_stationName = st_name station,
          q_capacity = st_capacity station, q_queuedTasks = length taskInstances,
          q_avgTaskMinutes = avgTask\<rparr>)"

definition getStationQueues :: "string \<Rightarrow> db \<Rightarrow> (string \<times> station_queue) list" where
  "getStationQueues tenantId d =
     fold (\<lambda>station queues. mapSet (st_id station) (stationQueueOf d station) queues)
          (filter (\<lambda>s. st_tenantId s = tenantId \<and> st_isActive s) (stations d)) []"

text \<open>
  \<open>(tasksAhead * avgTaskMinutes) / capacity\<close> of a queue: infinite or NaN when the
  capacity is 0.
\<close>

definition queueWait :: "station_queue \<Rightarrow> number" where
  "queueWait sq =
     fdiv (fmul (ofNat (q_queuedTasks sq)) (q_avgTaskMinutes sq)) (ofInt (q_capacity sq))"

section \<open>Order ETA (calculateOrderETA)\<close>

record eta_breakdown =
  b_taskId :: string
  b_taskName :: string
  b_stationId :: "string option"
  b_stationName :: "string option"
  b_estimatedMinutes :: number
  b_queueWaitMinutes :: number
  b_totalMinutes :: number
  b_isCriticalPath :: bool

datatype confidence = Low | Medium | High

record order_eta =
  eta_orderId :: string
  eta_estimatedReadyAt :: int
  eta_totalMinutes :: number
  eta_breakdown :: "eta_breakdown list"
  eta_confidence :: confidence

text \<open>
  \<open>Number(task.estimatedMinutes || 5)\<close>: Prisma returns a \<open>Decimal\<close> object for the
  \<open>DECIMAL(6,1)\<close> column, which is truthy also when it is zero; only a missing estimate
  takes the default.
\<close>

definition estimateOr5 :: "rat option \<Rightarrow> number" where
  "estimateOr5 em = (case em of None \<Rightarrow> Fin 5 | Some m \<Rightarrow> ofDecimal m)"

text \<open>The initialisation loop: in-degrees and adjacency lists (task id to dependents).\<close>

definition adjPush :: "string \<Rightarrow> string \<Rightarrow> (string \<times> string list) list \<Rightarrow> (string \<times> string list) list" where
  "adjPush dep taskId adjacency =
     (let adjacency' = (if map_of adjacency dep = None then mapSet dep [] adjacency else adjacency)
      in case map_of adjacency' dep of
           None \<Rightarrow> adjacency'
         | Some dependents \<Rightarrow> mapSet dep (dependents @ [taskId]) adjacency')"

definition initTask :: "task_instance \<Rightarrow> (string \<times> int) list \<times> (string \<times> string list) list
                         \<Rightarrow> (string \<times> int) list \<times> (string \<times> string list) list" where
  "initTask task g =
     (let deps = t_dependsOn task;
          inDegree = mapSet (t_id task) (int (length deps)) (fst g);
          adjacency = (if map_of (snd g) (t_id task) = None
                       then mapSet (t_id task) [] (snd g) else snd g)
      in (inDegree, fold (\<lambda>dep adj. adjPush dep (t_id task) adj) deps adjacency))"

definition initGraph :: "task_instance list \<Rightarrow> (string \<times> int) list \<times> (string \<times> string list) list" where
  "initGraph tasks = fold initTask tasks ([], [])"

definition initialQueue :: "(string \<times> int) list \<Rightarrow> string list" where
  "initialQueue inDegree = map fst (filter (\<lambda>(taskId, degree). degree = 0) inDegree)"

text \<open>\<open>new Map(tasks.map((t) => [t.id, t]))\<close>.\<close>

definition taskMapOf :: "task_instance list \<Rightarrow> (string \<times> task_instance) list" where
  "taskMapOf tasks = fold (\<lambda>t m. mapSet (t_id t) t m) tasks []"

text \<open>
  \<open>Math.max(...deps.map((d) => taskETAMinutes.get(d) ?? 0))\<close> when \<open>deps\<close> is not empty,
  and 0 otherwise.
\<close>

definition etaGet :: "(string \<times> number) list \<Rightarrow> string \<Rightarrow> number" where
  "etaGet taskETAMinutes d = (case map_of taskETAMinutes d of None \<Rightarrow> Fin 0 | Some m \<Rightarrow> m)"

definition maxDepETA :: "(string \<times> number) list \<Rightarrow> string list \<Rightarrow> number" where
  "maxDepETA taskETAMinutes deps =
     (if length deps > 0 then mathMax (map (etaGet taskETAMinutes) deps) else Fin 0)"

definition stationNameOf :: "db \<Rightarrow> task_instance \<Rightarrow> string option" where
  "stationNameOf d task =
     (case t_stationId task of
        None \<Rightarrow> None
      | Some sid \<Rightarrow> map_option st_name (find (\<lambda>s. st_id s = sid) (stations d)))"

text \<open>The wait at the station of the task; \<open>if (task.stationId)\<close> is false on the empty id.\<close>

definition queueWaitMinutes :: "(string \<times> station_queue) list \<Rightarrow> task_instance \<Rightarrow> number" where
  "queueWaitMinutes stationQueues task =
     (case t_stationId task of
        None \<Rightarrow> Fin 0
      | Some sid \<Rightarrow>
          if sid = [] then Fin 0
          else (case map_of stationQueues sid of None \<Rightarrow> Fin 0 | Some sq \<Rightarrow> queueWait sq))"

text \<open>\<open>(Date.now() - task.startedAt.getTime()) / 60000\<close>, and 0 for a task with no start.\<close>

definition elapsedMinutes :: "int \<Rightarrow> task_instance \<Rightarrow> number" where
  "elapsedMinutes now task =
     (case t_startedAt task of
        None \<Rightarrow> Fin 0
      | Some started \<Rightarrow> fdiv (fsub (ofInt now) (ofInt started)) (Fin 60000))"

text \<open>The body of the traversal for one task: its ETA and its breakdown entry.\<close>

definition taskETA :: "db \<Rightarrow> (string \<times> station_queue) list \<Rightarrow> int \<Rightarrow> (string \<times> number) list
                        \<Rightarrow> task_instance \<Rightarrow> number \<times> eta_breakdown" where
  "taskETA d stationQueues now taskETAMinutes task =
     (if t_status task = Done \<or> t_status task = Cancelled then
        (Fin 0, \<lparr>b_taskId = t_id task, b_taskName = t_name task, b_stationId = t_stationId task,
                 b_stationName = stationNameOf d task, b_estimatedMinutes = Fin 0,
                 b_queueWaitMinutes = Fin 0, b_totalMinutes = Fin 0, b_isCriticalPath = False\<rparr>)
      else if t_status task = InProgress then
        (let remaining = mathMax [Fin 0, fsub (estimateOr5 (t_estimatedMinutes task))
                                              (elapsedMinutes now task)]
         in (remaining,
             \<lparr>b_taskId = t_id task, b_taskName = t_name task, b_stationId = t_stationId task,
              b_stationName = stationNameOf d task, b_estimatedMinutes = remaining,
              b_queueWaitMinutes = Fin 0, b_totalMinutes = remaining, b_isCriticalPath = False\<rparr>))
      else
        (let estimatedMinutes = estimateOr5 (t_estimatedMinutes task);
             wait = queueWaitMinutes stationQueues task;
             totalMinutes = fadd (fadd (maxDepETA taskETAMinutes (t_dependsOn task)) wait)
                                 estimatedMinutes
         in (totalMinutes,
             \<lparr>b_taskId = t_id task, b_taskName = t_name task, b_stationId = t_stationId task,
              b_stationName = stationNameOf d task, b_estimatedMinutes = estimatedMinutes,
              b_queueWaitMinutes = wait, b_totalMinutes = totalMinutes,
              b_isCriticalPath = False\<rparr>)))"

text \<open>The loop over the dependents of a processed task.\<close>

definition degreeGet :: "(string \<times> int) list \<Rightarrow> string \<Rightarrow> int" where
  "degreeGet inDegree k = (case map_of inDegree k of None \<Rightarrow> 0 | Some n \<Rightarrow> n)"

fun processDependents :: "string list \<Rightarrow> (string \<times> int) list \<Rightarrow> string list
                           \<Rightarrow> (string \<times> int) list \<times> string list" where
  "processDependents [] inDegree queue = (inDegree, queue)"
| "processDependents (depId # rest) inDegree queue =
     (let newDegree = degreeGet inDegree depId - 1
      in processDependents rest (mapSet depId newDegree inDegree)
           (if newDegree = 0 then queue @ [depId] else queue))"

definition dependentsOf :: "(string \<times> string list) list \<Rightarrow> string \<Rightarrow> string list" where
  "dependentsOf adjacency taskId = (case map_of adjacency taskId of None \<Rightarrow> [] | Some ds \<Rightarrow> ds)"

text \<open>
  The traversal loop. It stops because every iteration removes one id from the queue and
  an id is pushed only when a positive in-degree falls to 0: the length of the queue plus
  the sum of the positive in-degrees decreases.
\<close>

definition degreeSum :: "(string \<times> int) list \<Rightarrow> nat" where
  "degreeSum inDegree = sum_list (map (\<lambda>kv. nat (snd kv)) inDegree)"

lemma degreeSum_mapSet:
  "degreeSum (mapSet k v m) + nat (degreeGet m k) = degreeSum m + nat v"
  by (induction m) (auto simp: degreeSum_def degreeGet_def)

lemma processDependents_measure:
  "length (snd (processDependents ds deg q)) + degreeSum (fst (processDependents ds deg q))
     \<le> length q + degreeSum deg"
proof (induction ds arbitrary: deg q)
  case Nil
  then show ?case by simp
next
  case (Cons d ds)
  let ?n = "degreeGet deg d - 1"
  let ?deg = "mapSet d ?n deg"
  let ?q = "if ?n = 0 then q @ [d] else q"
  have step: "length ?q + degreeSum ?deg \<le> length q + degreeSum deg"
    using degreeSum_mapSet [of d ?n deg] by (cases "?n = 0") auto
  have "processDependents (d # ds) deg q = processDependents ds ?deg ?q"
    by (simp add: Let_def)
  with Cons.IH [of ?deg ?q] step show ?case by simp
qed

text \<open>
  \<open>taskMap.get(taskId)!\<close> on an id that is not a task would make \<open>task.status\<close> throw a
  TypeError: the result \<open>None\<close>.
\<close>

function etaLoop :: "db \<Rightarrow> (string \<times> station_queue) list \<Rightarrow> int
    \<Rightarrow> (string \<times> task_instance) list \<Rightarrow> (string \<times> string list) list
    \<Rightarrow> string list \<Rightarrow> (string \<times> int) list
    \<Rightarrow> (string \<times> number) list \<Rightarrow> (string \<times> eta_breakdown) list
    \<Rightarrow> ((string \<times> number) list \<times> (string \<times> eta_breakdown) list) option" where
  "etaLoop d stationQueues now taskMap adjacency [] inDegree taskETAMinutes taskBreakdown =
     Some (taskETAMinutes, taskBreakdown)"
| "etaLoop d stationQueues now taskMap adjacency (taskId # queue) inDegree taskETAMinutes taskBreakdown =
     (case map_of taskMap taskId of
        None \<Rightarrow> None
      | Some task \<Rightarrow>
          (let r = taskETA d stationQueues now taskETAMinutes task;
               g = processDependents (dependentsOf adjacency taskId) inDegree queue
           in etaLoop d stationQueues now taskMap adjacency (snd g) (fst g)
                (mapSet taskId (fst r) taskETAMinutes) (mapSet taskId (snd r) taskBreakdown)))"
  by pat_completeness auto
termination
proof (relation "measure (\<lambda>(d, sq, now, tm, adj, queue, inDegree, eta, bd).
                            length queue + degreeSum inDegree)")
  show "wf (measure (\<lambda>(d :: db, sq :: (string \<times> station_queue) list, now :: int,
                       tm :: (string \<times> task_instance) list, adj :: (string \<times> string list) list,
                       queue :: string list, inDegree, eta :: (string \<times> number) list,
                       bd :: (string \<times> eta_breakdown) list).
                      length queue + degreeSum inDegree))"
    by simp
next
  fix d :: db and sq :: "(string \<times> station_queue) list" and now :: int
    and tm :: "(string \<times> task_instance) list" and adj :: "(string \<times> string list) list"
    and taskId :: string and queue :: "string list" and inDegree :: "(string \<times> int) list"
    and eta :: "(string \<times> number) list" and bd :: "(string \<times> eta_breakdown) list"
    and task :: task_instance and r :: "number \<times> eta_breakdown"
    and g :: "(string \<times> int) list \<times> string list"
  assume "g = processDependents (dependentsOf adj taskId) inDegree queue"
  then show "((d, sq, now, tm, adj, snd g, fst g, mapSet taskId (fst r) eta, mapSet taskId (snd r) bd),
              (d, sq, now, tm, adj, taskId # queue, inDegree, eta, bd))
             \<in> measure (\<lambda>(d, sq, now, tm, adj, queue, inDegree, eta, bd).
                           length queue + degreeSum inDegree)"
    using processDependents_measure [of "dependentsOf adj taskId" inDegree queue] by simp
qed

text \<open>The scan for the largest ETA: a strict comparison, starting from 0 and the empty id.\<close>

definition criticalStep :: "string \<times> number \<Rightarrow> number \<times> string \<Rightarrow> number \<times> string" where
  "criticalStep entry acc = (if jsGt (snd entry) (fst acc) then (snd entry, fst entry) else acc)"

definition criticalTask :: "(string \<times> number) list \<Rightarrow> number \<times> string" where
  "criticalTask taskETAMinutes = fold criticalStep taskETAMinutes (Fin 0, [])"

definition markCritical :: "string \<Rightarrow> (string \<times> eta_breakdown) list \<Rightarrow> (string \<times> eta_breakdown) list" where
  "markCritical criticalTaskId taskBreakdown =
     (if criticalTaskId \<noteq> [] then
        (case map_of taskBreakdown criticalTaskId of
           None \<Rightarrow> taskBreakdown
         | Some b \<Rightarrow> mapSet criticalTaskId (b\<lparr>b_isCriticalPath := True\<rparr>) taskBreakdown)
      else taskBreakdown)"

text \<open>\<open>tasks.some((t) => t.estimatedMinutes && Number(t.estimatedMinutes) > 0)\<close>.\<close>

definition hasHistorical :: "task_instance list \<Rightarrow> bool" where
  "hasHistorical tasks =
     list_ex (\<lambda>t. case t_estimatedMinutes t of
                     None \<Rightarrow> False
                   | Some m \<Rightarrow> jsGt (ofDecimal m) (Fin 0)) tasks"

definition confidenceOf :: "task_instance list \<Rightarrow> confidence" where
  "confidenceOf tasks =
     (if length tasks < 3 then Low else if hasHistorical tasks then High else Medium)"

definition orderTasks :: "string \<Rightarrow> string \<Rightarrow> db \<Rightarrow> task_instance list" where
  "orderTasks tenantId orderId d =
     filter (\<lambda>t. t_tenantId t = tenantId \<and> t_orderId t = orderId) (taskInstances d)"

text \<open>The per-task ETA map and breakdown map at the end of the traversal.\<close>

definition traverse :: "string \<Rightarrow> string \<Rightarrow> int \<Rightarrow> db
    \<Rightarrow> ((string \<times> number) list \<times> (string \<times> eta_breakdown) list) option" where
  "traverse tenantId orderId now d =
     (let tasks = orderTasks tenantId orderId d;
          stationQueues = getStationQueues tenantId d;
          g = initGraph tasks
      in etaLoop d stationQueues now (taskMapOf tasks) (snd g) (initialQueue (fst g)) (fst g) [] [])"

text \<open>
  The result \<open>None\<close> is a call that throws: the TypeError of the traversal, or
  \<open>prisma.order.update\<close> given an invalid date, which the database client refuses
  (\<open>maxMinutes\<close> is infinite, or the instant is beyond the range of dates).
\<close>

definition calculateOrderETA :: "string \<Rightarrow> string \<Rightarrow> int \<Rightarrow> db \<Rightarrow> (order_eta \<times> db) option" where
  "calculateOrderETA tenantId orderId now d =
     (let tasks = orderTasks tenantId orderId d in
      if length tasks = 0 then
        Some (\<lparr>eta_orderId = orderId, eta_estimatedReadyAt = now, eta_totalMinutes = Fin 0,
               eta_breakdown = [], eta_confidence = Low\<rparr>, d)
      else
        (case traverse tenantId orderId now d of
           None \<Rightarrow> None
         | Some (taskETAMinutes, taskBreakdown) \<Rightarrow>
             (let c = criticalTask taskETAMinutes;
                  maxMinutes = fst c;
                  taskBreakdown' = markCritical (snd c) taskBreakdown
              in case newDate (fadd (ofInt now) (fmul maxMinutes (Fin 60000))) of
                   None \<Rightarrow> None
                 | Some estimatedReadyAt \<Rightarrow>
                     Some (\<lparr>eta_orderId = orderId, eta_estimatedReadyAt = estimatedReadyAt,
                            eta_totalMinutes = mathRound maxMinutes,
                            eta_breakdown = map snd taskBreakdown',
                            eta_confidence = confidenceOf tasks\<rparr>,
                           d\<lparr>orders := map (\<lambda>r. if o_id r = orderId
                                                 then r\<lparr>o_estimatedReadyAt := Some estimatedReadyAt\<rparr>
                                                 else r) (orders d)\<rparr>))))"

section \<open>Pre-commitment estimate (suggestOrderTime)\<close>











section \<open>Workflow instantiation (instantiateWorkflow)\<close>

text \<open>
  The database assigns the ids of created rows (\<open>gen_random_uuid()\<close>). The generator
  \<open>uuid\<close> gives the id of the n-th row created, and \<open>n0\<close> is the number of rows created
  before the call.
\<close>

datatype inst_error = TemplateNotFound

definition stationByType :: "station list \<Rightarrow> (string \<times> string) list" where
  "stationByType sts = fold (\<lambda>s m. fold (\<lambda>ty m'. mapSet ty (st_id s) m') (st_taskTypes s) m) sts []"

text \<open>
  The averages of the last 30 days by task definition, in minutes. \<open>_avg.durationSeconds\<close>
  is the average of the group as a number, and is falsy when it is 0.
\<close>

definition getHistoricalDurations :: "string \<Rightarrow> string \<Rightarrow> int \<Rightarrow> db \<Rightarrow> (string \<times> number) list" where
  "getHistoricalDurations tenantId workflowTemplateId now d =
     (let rows = filter (\<lambda>r. d_tenantId r = tenantId \<and> d_workflowTemplateId r = workflowTemplateId
                            \<and> d_recordedAt r \<ge> now - 30 * 24 * 60 * 60 * 1000) (taskDurations d)
      in fold (\<lambda>defId result.
                 let g = filter (\<lambda>r. d_taskDefId r = defId) rows;
                     avg = roundDouble (of_int (sum_list (map d_durationSeconds g)) / of_nat (length g))
                 in if length g \<ge> 5 \<and> avg \<noteq> Fin 0
                    then mapSet defId (fdiv avg (Fin 60)) result else result)
              (remdups (map d_taskDefId rows)) [])"

text \<open>
  The estimate written to the \<open>estimated_minutes\<close> column: the value of the number. (An
  infinite value, which no average and no numeral within the range of the doubles
  gives, leaves the column empty.)
\<close>

definition decimalOf :: "number \<Rightarrow> rat option" where
  "decimalOf a = (case a of Fin x \<Rightarrow> Some x | _ \<Rightarrow> None)"

definition phaseTasks :: "phase_def list \<Rightarrow> (phase_def \<times> task_def) list" where
  "phaseTasks phases = concat (map (\<lambda>phase. map (\<lambda>task. (phase, task)) (pd_tasks phase)) phases)"

definition createTask :: "(nat \<Rightarrow> string) \<Rightarrow> string \<Rightarrow> string \<Rightarrow> string
    \<Rightarrow> (string \<times> string) list \<Rightarrow> (string \<times> number) list \<Rightarrow> phase_def \<times> task_def
    \<Rightarrow> nat \<times> (string \<times> string) list \<times> string list \<times> db
    \<Rightarrow> nat \<times> (string \<times> string) list \<times> string list \<times> db" where
  "createTask uuid tenantId orderId orderItemId byType historicalDurations pt st =
     (case st of (n, defToInstanceId, createdTaskIds, d) \<Rightarrow>
        (let task = snd pt;
             estimatedMinutes = (case map_of historicalDurations (td_id task) of
                                   Some h \<Rightarrow> h
                                 | None \<Rightarrow> roundDouble (td_estimated_minutes task));
             instance = \<lparr>t_id = uuid n, t_tenantId = tenantId, t_orderId = orderId,
                         t_orderItemId = orderItemId, t_taskDefId = td_id task,
                         t_name = td_name task,
                         t_stationId = map_of byType (td_station_type task),
                         t_status = Pending, t_dependsOn = [],
                         t_estimatedMinutes = decimalOf estimatedMinutes, t_assignedToId = None,
                         t_startedAt = None, t_completedAt = None, t_completedById = None\<rparr>;
             subs = map (\<lambda>(i, sub). \<lparr>s_id = uuid (n + 1 + i), s_taskInstanceId = uuid n,
                                      s_tenantId = tenantId, s_subtaskDefId = sd_id sub,
                                      s_name = sd_name sub, s_isCompleted = False,
                                      s_completedAt = None, s_completedById = None\<rparr>)
                        (enumerate 0 (td_subtasks task))
         in (n + 1 + length subs, mapSet (td_id task) (uuid n) defToInstanceId,
             createdTaskIds @ [uuid n],
             d\<lparr>taskInstances := taskInstances d @ [instance],
               subtaskInstances := subtaskInstances d @ subs\<rparr>)))"

definition resolveDeps :: "(string \<times> string) list \<Rightarrow> phase_def \<times> task_def \<Rightarrow> db \<Rightarrow> db" where
  "resolveDeps defToInstanceId pt d =
     (let task = snd pt in
      if length (td_depends_on task) > 0 then
        (case map_of defToInstanceId (td_id task) of
           None \<Rightarrow> d
         | Some instanceId \<Rightarrow>
             d\<lparr>taskInstances :=
                 map (\<lambda>t. if t_id t = instanceId
                          then t\<lparr>t_dependsOn := List.map_filter (map_of defToInstanceId)
                                                     (td_depends_on task)\<rparr>
                          else t) (taskInstances d)\<rparr>)
      else d)"

definition instantiateWorkflow :: "(nat \<Rightarrow> string) \<Rightarrow> nat \<Rightarrow> string \<Rightarrow> string \<Rightarrow> string \<Rightarrow> string
    \<Rightarrow> int \<Rightarrow> db \<Rightarrow> inst_error + (string list \<times> db)" where
  "instantiateWorkflow uuid n0 tenantId orderId orderItemId workflowTemplateId now d =
     (case find (\<lambda>t. wt_id t = workflowTemplateId) (workflowTemplates d) of
        None \<Rightarrow> Inl TemplateNotFound
      | Some template \<Rightarrow>
          (let byType = stationByType (filter (\<lambda>s. st_tenantId s = tenantId \<and> st_isActive s)
                                               (stations d));
               historicalDurations = getHistoricalDurations tenantId workflowTemplateId now d;
               pts = phaseTasks (wt_phases template);
               st = fold (createTask uuid tenantId orderId orderItemId byType historicalDurations)
                         pts (n0, [], [], d)
           in case st of (n, defToInstanceId, createdTaskIds, d1) \<Rightarrow>
                Inr (createdTaskIds,
                     snd (activateReadyTasks tenantId orderId
                            (fold (resolveDeps defToInstanceId) pts d1)))))"

section \<open>The local store of the client (src/lib/offline)\<close>

datatype sync_status = SLocal | SSynced | SModified | SConflict

datatype delivery_status = DPending | DAssigned | DPickedUp | DDelivered

record local_task = task_instance +
  lt_syncStatus :: sync_status

record local_subtask = subtask_instance +
  ls_syncStatus :: sync_status

record order_data =
  od_id :: string
  od_tenantId :: string
  od_orderNumber :: "nat option"
  od_status :: order_status
  od_notes :: "string option"
  od_priority :: int
  od_estimatedReadyAt :: "int option"
  od_actualReadyAt :: "int option"

record local_order = order_data +
  lo_syncStatus :: sync_status
  lo_serverId :: "string option"
  lo_serverOrderNumber :: "nat option"

record item_data =
  it_id :: string
  it_orderId :: string
  it_menuItemId :: string
  it_quantity :: nat
  it_status :: item_status

record local_item = item_data +
  li_syncStatus :: sync_status

record delivery_data =
  dl_id :: string
  dl_tenantId :: string
  dl_orderId :: string
  dl_riderId :: "string option"
  dl_status :: delivery_status

record local_delivery = delivery_data +
  ld_syncStatus :: sync_status

datatype event_type =
  OrderCreate | OrderUpdate | OrderCancel | TaskStart | TaskComplete | SubtaskComplete
| DeliveryAssign | DeliveryPickup | DeliveryDeliver | InventoryAdjust

datatype entity_type = EOrder | ETask | ESubtask | EDelivery | EInventory

datatype event_status = EvPending | EvSyncing | EvSynced | EvFailed | EvConflict

datatype sync_error = ClientError nat string | HttpError nat | NetworkFailure string

record sync_event =
  e_id :: string
  e_tenantId :: string
  e_userId :: string
  e_timestamp :: int
  e_type :: event_type
  e_entityType :: entity_type
  e_entityId :: string
  e_status :: event_status
  e_retryCount :: nat
  e_lastError :: "sync_error option"
  e_syncedAt :: "int option"
  e_sequence :: nat

text \<open>
  The transport. The JSON body of a successful response, with the fields the client reads;
  a response is successful (\<open>response.ok\<close>), or carries a status outside 200..299, or the
  request fails (network error or timeout). The outcomes of the requests are an input: the
  client holds the script of the exchanges to come, each with the value of
  \<open>navigator.onLine\<close> after it, and a log of the events it has posted.
\<close>

record server_order = order_data +
  so_items :: "item_data list"

record server_task = task_instance +
  stk_subtasks :: "subtask_instance list"

record body =
  bd_ok :: bool
  bd_order :: "order_data option"
  bd_etaEstimatedReadyAt :: "int option"
  bd_orders :: "server_order list"
  bd_tasks :: "server_task list"
  bd_deliveries :: "delivery_data list"

datatype reply = Ok2xx body | HttpStatus nat string | NetworkError string

record exchange =
  x_reply :: reply
  x_onLineAfter :: bool

record client =
  c_orders :: "local_order list"
  c_orderItems :: "local_item list"
  c_tasks :: "local_task list"
  c_subtasks :: "local_subtask list"
  c_deliveries :: "local_delivery list"
  c_syncEvents :: "sync_event list"
  c_sequenceCounter :: nat
  c_onLine :: bool
  c_isSyncing :: bool
  c_wire :: "exchange list"
  c_posted :: "(sync_event \<times> reply) list"

definition fetch :: "client \<Rightarrow> reply \<times> client" where
  "fetch c =
     (case c_wire c of
        [] \<Rightarrow> (NetworkError ''Network error'', c)
      | x # rest \<Rightarrow> (x_reply x, c\<lparr>c_wire := rest, c_onLine := x_onLineAfter x\<rparr>))"

text \<open>Dexie's \<open>table.put\<close>: replace the row with the same primary key, or add the row.\<close>

definition put :: "('a \<Rightarrow> string) \<Rightarrow> 'a \<Rightarrow> 'a list \<Rightarrow> 'a list" where
  "put key r tbl =
     (if list_ex (\<lambda>x. key x = key r) tbl
      then map (\<lambda>x. if key x = key r then r else x) tbl
      else tbl @ [r])"

section \<open>The event queue (event-queue.ts)\<close>

definition enqueueEvent :: "string \<Rightarrow> string \<Rightarrow> event_type \<Rightarrow> entity_type \<Rightarrow> string \<Rightarrow> string \<Rightarrow> int
    \<Rightarrow> client \<Rightarrow> client" where
  "enqueueEvent tenantId userId ty entityType entityId newId now c =
     (let sequenceCounter = c_sequenceCounter c + 1
      in c\<lparr>c_syncEvents := c_syncEvents c @
              [\<lparr>e_id = newId, e_tenantId = tenantId, e_userId = userId, e_timestamp = now,
                e_type = ty, e_entityType = entityType, e_entityId = entityId,
                e_status = EvPending, e_retryCount = 0, e_lastError = None, e_syncedAt = None,
                e_sequence = sequenceCounter\<rparr>],
           c_sequenceCounter := sequenceCounter\<rparr>)"

text \<open>
  \<open>where('status').equals(...).sortBy('sequence')\<close>: the index gives the matching rows in
  the order of their primary key (the id, compared as a string), and \<open>sortBy\<close> sorts them
  stably by sequence. Events of equal sequence come in the order of their ids.
\<close>

definition getPendingEvents :: "client \<Rightarrow> sync_event list" where
  "getPendingEvents c =
     sort_key e_sequence (sort_key e_id (filter (\<lambda>e. e_status e = EvPending) (c_syncEvents c)))"

definition getFailedEvents :: "client \<Rightarrow> sync_event list" where
  "getFailedEvents c =
     sort_key e_sequence (sort_key e_id (filter (\<lambda>e. e_status e = EvFailed) (c_syncEvents c)))"

definition updateEvent :: "string \<Rightarrow> (sync_event \<Rightarrow> sync_event) \<Rightarrow> client \<Rightarrow> client" where
  "updateEvent eventId f c =
     c\<lparr>c_syncEvents := map (\<lambda>e. if e_id e = eventId then f e else e) (c_syncEvents c)\<rparr>"

definition markEventSyncing :: "string \<Rightarrow> client \<Rightarrow> client" where
  "markEventSyncing eventId c = updateEvent eventId (\<lambda>e. e\<lparr>e_status := EvSyncing\<rparr>) c"

definition markEventSynced :: "string \<Rightarrow> int \<Rightarrow> client \<Rightarrow> client" where
  "markEventSynced eventId now c =
     updateEvent eventId (\<lambda>e. e\<lparr>e_status := EvSynced, e_syncedAt := Some now\<rparr>) c"

definition markEventFailed :: "string \<Rightarrow> sync_error \<Rightarrow> client \<Rightarrow> client" where
  "markEventFailed eventId error c =
     (case find (\<lambda>e. e_id e = eventId) (c_syncEvents c) of
        None \<Rightarrow> c
      | Some event \<Rightarrow>
          updateEvent eventId
            (\<lambda>e. e\<lparr>e_status := (if e_retryCount event \<ge> 5 then EvConflict else EvFailed),
                   e_lastError := Some error,
                   e_retryCount := e_retryCount event + 1\<rparr>) c)"

section \<open>Offline actions (startTaskOffline, completeTaskOffline, completeSubtaskOffline)\<close>

text \<open>
  Each action writes the local store and enqueues a sync event; \<open>newId\<close> is the id that
  \<open>generateLocalId()\<close> gives the event.
\<close>

datatype offline_error = LocalTaskNonTrovato

definition startTaskOffline :: "string \<Rightarrow> string \<Rightarrow> string \<Rightarrow> string \<Rightarrow> int \<Rightarrow> client \<Rightarrow> client" where
  "startTaskOffline tenantId userId taskId newId now c =
     enqueueEvent tenantId userId TaskStart ETask taskId newId now
       (c\<lparr>c_tasks := map (\<lambda>t. if t_id t = taskId
                               then t\<lparr>t_status := InProgress, t_assignedToId := Some userId,
                                      t_startedAt := Some now, lt_syncStatus := SModified\<rparr>
                               else t) (c_tasks c)\<rparr>)"

text \<open>
  The loop of \<open>completeTaskOffline\<close> over the tasks of the order: the dependency check
  reads the snapshot \<open>allOrderTasks\<close>, the update writes the table.
\<close>

definition allDepsDone :: "local_task list \<Rightarrow> local_task \<Rightarrow> bool" where
  "allDepsDone allOrderTasks depTask =
     list_all (\<lambda>depId. case find (\<lambda>t. t_id t = depId) allOrderTasks of
                          None \<Rightarrow> False
                        | Some dep \<Rightarrow> t_status dep = Done)
              (t_dependsOn depTask)"

definition activateDependent :: "string \<Rightarrow> local_task list \<Rightarrow> local_task \<Rightarrow> local_task list
    \<Rightarrow> local_task list" where
  "activateDependent taskId allOrderTasks depTask tbl =
     (if t_status depTask \<noteq> Pending then tbl
      else if taskId \<notin> set (t_dependsOn depTask) then tbl
      else if allDepsDone allOrderTasks depTask then
        map (\<lambda>t. if t_id t = t_id depTask
                 then t\<lparr>t_status := Queued, lt_syncStatus := SModified\<rparr> else t) tbl
      else tbl)"

definition completeTaskOffline :: "string \<Rightarrow> string \<Rightarrow> string \<Rightarrow> string \<Rightarrow> int \<Rightarrow> client
    \<Rightarrow> offline_error + (bool \<times> client)" where
  "completeTaskOffline tenantId userId taskId newId now c =
     (case find (\<lambda>t. t_id t = taskId) (c_tasks c) of
        None \<Rightarrow> Inl LocalTaskNonTrovato
      | Some task \<Rightarrow>
          (let tasks1 = map (\<lambda>t. if t_id t = taskId
                                 then t\<lparr>t_status := Done, t_completedAt := Some now,
                                        t_completedById := Some userId,
                                        t_startedAt := (case t_startedAt task of
                                                          None \<Rightarrow> Some now | Some s \<Rightarrow> Some s),
                                        lt_syncStatus := SModified\<rparr>
                                 else t) (c_tasks c);
               subtasks1 = map (\<lambda>s. if s_taskInstanceId s = taskId
                                    then s\<lparr>s_isCompleted := True, s_completedAt := Some now,
                                           s_completedById := Some userId,
                                           ls_syncStatus := SModified\<rparr>
                                    else s) (c_subtasks c);
               allOrderTasks = filter (\<lambda>t. t_orderId t = t_orderId task \<and> t_tenantId t = tenantId)
                                      tasks1;
               tasks2 = fold (activateDependent taskId allOrderTasks) allOrderTasks tasks1;
               updatedTasks = filter (\<lambda>t. t_orderId t = t_orderId task \<and> t_tenantId t = tenantId)
                                     tasks2;
               allDone = list_all (\<lambda>t. t_status t = Done \<or> t_status t = Cancelled) updatedTasks;
               orders1 = (if allDone
                          then map (\<lambda>r. if od_id r = t_orderId task
                                        then r\<lparr>od_status := OReady, od_actualReadyAt := Some now,
                                               lo_syncStatus := SModified\<rparr>
                                        else r) (c_orders c)
                          else c_orders c)
           in Inr (allDone,
                   enqueueEvent tenantId userId TaskComplete ETask taskId newId now
                     (c\<lparr>c_tasks := tasks2, c_subtasks := subtasks1, c_orders := orders1\<rparr>))))"

definition completeSubtaskOffline :: "string \<Rightarrow> string \<Rightarrow> string \<Rightarrow> string \<Rightarrow> string \<Rightarrow> int
    \<Rightarrow> client \<Rightarrow> client" where
  "completeSubtaskOffline tenantId userId taskId subtaskId newId now c =
     enqueueEvent tenantId userId SubtaskComplete ESubtask subtaskId newId now
       (c\<lparr>c_subtasks := map (\<lambda>s. if s_id s = subtaskId
                                  then s\<lparr>s_isCompleted := True, s_completedAt := Some now,
                                         s_completedById := Some userId,
                                         ls_syncStatus := SModified\<rparr>
                                  else s) (c_subtasks c)\<rparr>)"

section \<open>Pull: server state into the local store\<close>

definition storeOrder :: "server_order \<Rightarrow> client \<Rightarrow> client" where
  "storeOrder ord c =
     c\<lparr>c_orders := put od_id
           (order_data.extend (order_data.truncate ord)
              (local_order.fields SSynced None (od_orderNumber ord))) (c_orders c),
        c_orderItems := fold (\<lambda>item tbl.
                                put it_id (item_data.extend item (local_item.fields SSynced)) tbl)
                             (so_items ord) (c_orderItems c)\<rparr>"

definition pullOrder :: "server_order \<Rightarrow> client \<Rightarrow> client" where
  "pullOrder ord c =
     (case find (\<lambda>r. od_id r = od_id ord) (c_orders c) of
        Some existing \<Rightarrow> if lo_syncStatus existing = SLocal then c else storeOrder ord c
      | None \<Rightarrow> storeOrder ord c)"

definition pullActiveOrders :: "client \<Rightarrow> client" where
  "pullActiveOrders c =
     (case fetch c of
        (Ok2xx data, c') \<Rightarrow> fold pullOrder (bd_orders data) c'
      | (HttpStatus n err, c') \<Rightarrow> c'
      | (NetworkError msg, c') \<Rightarrow> c')"

definition storeTask :: "server_task \<Rightarrow> client \<Rightarrow> client" where
  "storeTask task c =
     c\<lparr>c_tasks := put t_id
           (task_instance.extend (task_instance.truncate task) (local_task.fields SSynced))
           (c_tasks c),
        c_subtasks := fold (\<lambda>sub tbl.
                              put s_id (subtask_instance.extend sub (local_subtask.fields SSynced)) tbl)
                           (stk_subtasks task) (c_subtasks c)\<rparr>"

definition pullTask :: "server_task \<Rightarrow> client \<Rightarrow> client" where
  "pullTask task c =
     (case find (\<lambda>t. t_id t = t_id task) (c_tasks c) of
        Some existing \<Rightarrow> if lt_syncStatus existing \<noteq> SSynced then c else storeTask task c
      | None \<Rightarrow> storeTask task c)"

definition pullActiveTasks :: "client \<Rightarrow> client" where
  "pullActiveTasks c =
     (case fetch c of
        (Ok2xx data, c') \<Rightarrow> fold pullTask (bd_tasks data) c'
      | (HttpStatus n err, c') \<Rightarrow> c'
      | (NetworkError msg, c') \<Rightarrow> c')"

definition storeDelivery :: "delivery_data \<Rightarrow> client \<Rightarrow> client" where
  "storeDelivery del c =
     c\<lparr>c_deliveries := put dl_id (delivery_data.extend del (local_delivery.fields SSynced))
                             (c_deliveries c)\<rparr>"

definition pullDelivery :: "delivery_data \<Rightarrow> client \<Rightarrow> client" where
  "pullDelivery del c =
     (case find (\<lambda>r. dl_id r = dl_id del) (c_deliveries c) of
        Some existing \<Rightarrow> if ld_syncStatus existing \<noteq> SSynced then c else storeDelivery del c
      | None \<Rightarrow> storeDelivery del c)"

definition pullActiveDeliveries :: "client \<Rightarrow> client" where
  "pullActiveDeliveries c =
     (case fetch c of
        (Ok2xx data, c') \<Rightarrow> fold pullDelivery (bd_deliveries data) c'
      | (HttpStatus n err, c') \<Rightarrow> c'
      | (NetworkError msg, c') \<Rightarrow> c')"

text \<open>
  \<open>pullServerState\<close> first refreshes the reference collections (stations, menu, workflows,
  users, inventory), which live in tables that are not part of this model, and then pulls
  the operational entities.
\<close>

definition pullServerState :: "client \<Rightarrow> client" where
  "pullServerState c =
     (if \<not> c_onLine c then c
      else pullActiveDeliveries (pullActiveTasks (pullActiveOrders c)))"

definition pullEntityState :: "entity_type \<Rightarrow> string \<Rightarrow> client \<Rightarrow> client" where
  "pullEntityState entityType entityId c =
     (case entityType of
        EOrder \<Rightarrow> pullActiveOrders c
      | ETask \<Rightarrow> pullActiveTasks c
      | EDelivery \<Rightarrow> pullActiveDeliveries c
      | _ \<Rightarrow> c)"

section \<open>Push: local events to the server\<close>

definition reconcileEntity :: "sync_event \<Rightarrow> body \<Rightarrow> client \<Rightarrow> client" where
  "reconcileEntity event serverData c =
     (case e_entityType event of
        EOrder \<Rightarrow>
          (case bd_order serverData of
             None \<Rightarrow> c
           | Some ord \<Rightarrow>
               c\<lparr>c_orders :=
                   map (\<lambda>r. if od_id r = e_entityId event
                            then r\<lparr>lo_syncStatus := SSynced, lo_serverId := Some (od_id ord),
                                   lo_serverOrderNumber := od_orderNumber ord,
                                   od_orderNumber := od_orderNumber ord,
                                   od_status := od_status ord,
                                   od_estimatedReadyAt := bd_etaEstimatedReadyAt serverData\<rparr>
                            else r) (c_orders c)\<rparr>)
      | _ \<Rightarrow> c)"

definition pushSingleEvent :: "int \<Rightarrow> string \<Rightarrow> client \<Rightarrow> client" where
  "pushSingleEvent now eventId c =
     (case find (\<lambda>e. e_id e = eventId) (c_syncEvents c) of
        None \<Rightarrow> c
      | Some event \<Rightarrow>
          if e_status event = EvSynced then c
          else
            (case fetch (markEventSyncing eventId c) of (response, c1) \<Rightarrow>
               (let c2 = c1\<lparr>c_posted := c_posted c1 @ [(event, response)]\<rparr>
                in case response of
                     Ok2xx data \<Rightarrow>
                       (let c3 = markEventSynced eventId now c2
                        in if bd_order data \<noteq> None \<or> bd_ok data
                           then reconcileEntity event data c3 else c3)
                   | HttpStatus n err \<Rightarrow>
                       if n = 409 then
                         pullEntityState (e_entityType event) (e_entityId event)
                           (markEventSynced eventId now c2)
                       else if n \<ge> 400 \<and> n < 500 then
                         markEventFailed eventId (ClientError n err) c2
                       else markEventFailed eventId (HttpError n) c2
                   | NetworkError msg \<Rightarrow> markEventFailed eventId (NetworkFailure msg) c2)))"

fun pushPending :: "int \<Rightarrow> string list \<Rightarrow> client \<Rightarrow> client" where
  "pushPending now [] c = c"
| "pushPending now (eventId # rest) c =
     (if \<not> c_onLine c then c else pushPending now rest (pushSingleEvent now eventId c))"

definition pushEvents :: "int \<Rightarrow> client \<Rightarrow> client" where
  "pushEvents now c =
     (if c_isSyncing c \<or> \<not> c_onLine c then c
      else
        (let c0 = c\<lparr>c_isSyncing := True\<rparr>;
             failed = getFailedEvents c0;
             c1 = fold (pushSingleEvent now) (map e_id failed) c0;
             pending = getPendingEvents c1;
             c2 = pushPending now (map e_id pending) c1
         in c2\<lparr>c_isSyncing := False\<rparr>))"

section \<open>Example states\<close>

text \<open>Builders for the concrete orders, stores and queues the theorems are instantiated at.\<close>

definition mkTask :: "string \<Rightarrow> task_status \<Rightarrow> string list \<Rightarrow> task_instance" where
  "mkTask i st deps =
     \<lparr>t_id = i, t_tenantId = ''t1'', t_orderId = ''o1'', t_orderItemId = ''i1'', t_taskDefId = i,
      t_name = i, t_stationId = None, t_status = st, t_dependsOn = deps,
      t_estimatedMinutes = Some 5, t_assignedToId = None, t_startedAt = None,
      t_completedAt = None, t_completedById = None\<rparr>"

definition mkDb :: "task_instance list \<Rightarrow> db" where
  "mkDb ts =
     \<lparr>taskInstances = ts, subtaskInstances = [], taskDurations = [],
      orderItems = [\<lparr>oi_id = ''i1'', oi_orderId = ''o1'', oi_status = IPending,
                     oi_workflowTemplateId = Some ''w1''\<rparr>],
      orders = [\<lparr>o_id = ''o1'', o_status = OPreparing, o_actualReadyAt = None,
                 o_estimatedReadyAt = None\<rparr>],
      stations = [], workflowTemplates = [], menuItems = [], emitted = []\<rparr>"

lemmas example_defs = mkTask_def mkDb_def

lemmas engine_defs =
  completeTask_def startTask_def completeSubtask_def findTask_def autoCompleteSubtasks_def
  recordDuration_def roundSeconds_def activateReadyTasks_def pendingTasks_def setTaskStatus_def
  completedDeps_def checkOrderCompletion_def Let_def

definition mkEvent :: "string \<Rightarrow> event_status \<Rightarrow> nat \<Rightarrow> nat \<Rightarrow> sync_event" where
  "mkEvent i st retries sq =
     \<lparr>e_id = i, e_tenantId = ''t1'', e_userId = ''u1'', e_timestamp = 0, e_type = TaskComplete,
      e_entityType = ETask, e_entityId = i, e_status = st, e_retryCount = retries,
      e_lastError = None, e_syncedAt = None, e_sequence = sq\<rparr>"

definition emptyBody :: body where
  "emptyBody = \<lparr>bd_ok = True, bd_order = None, bd_etaEstimatedReadyAt = None, bd_orders = [],
                bd_tasks = [], bd_deliveries = []\<rparr>"

definition mkClient :: "local_order list \<Rightarrow> local_task list \<Rightarrow> sync_event list \<Rightarrow> exchange list
    \<Rightarrow> client" where
  "mkClient os ts es wire =
     \<lparr>c_orders = os, c_orderItems = [], c_tasks = ts, c_subtasks = [], c_deliveries = [],
      c_syncEvents = es, c_sequenceCounter = length es, c_onLine = True, c_isSyncing = False,
      c_wire = wire, c_posted = []\<rparr>"

definition queueClient :: "sync_event list \<Rightarrow> exchange list \<Rightarrow> client" where
  "queueClient es wire = mkClient [] [] es wire"

definition mkLocalTask :: "task_instance \<Rightarrow> sync_status \<Rightarrow> local_task" where
  "mkLocalTask t s = task_instance.extend t (local_task.fields s)"

definition mkLocalOrder :: "string \<Rightarrow> order_status \<Rightarrow> sync_status \<Rightarrow> local_order" where
  "mkLocalOrder i st s =
     \<lparr>od_id = i, od_tenantId = ''t1'', od_orderNumber = None, od_status = st, od_notes = None,
      od_priority = 0, od_estimatedReadyAt = None, od_actualReadyAt = None,
      lo_syncStatus = s, lo_serverId = None, lo_serverOrderNumber = None\<rparr>"

definition reply_ok :: exchange where
  "reply_ok = \<lparr>x_reply = Ok2xx emptyBody, x_onLineAfter = True\<rparr>"

definition reply_timeout :: exchange where
  "reply_timeout = \<lparr>x_reply = NetworkError ''timeout'', x_onLineAfter = True\<rparr>"

lemmas client_defs =
  mkClient_def queueClient_def mkEvent_def emptyBody_def mkLocalTask_def mkLocalOrder_def
  reply_ok_def reply_timeout_def task_instance.extend_def local_task.fields_def

lemmas sync_defs =
  pushEvents_def getFailedEvents_def getPendingEvents_def pushSingleEvent_def fetch_def
  markEventSyncing_def markEventSynced_def markEventFailed_def updateEvent_def
  reconcileEntity_def pullEntityState_def Let_def

text \<open>
  The order of the critical-path example: \<open>a\<close> (5 minutes, no dependency), \<open>b\<close> (3 minutes,
  after \<open>a\<close>) and \<open>c\<close> (4 minutes, no dependency), with no station queue.
\<close>

definition mkTimed :: "string \<Rightarrow> task_status \<Rightarrow> string list \<Rightarrow> rat \<Rightarrow> task_instance" where
  "mkTimed i st deps m = (mkTask i st deps)\<lparr>t_estimatedMinutes := Some m\<rparr>"

definition abcDb :: db where
  "abcDb = mkDb [mkTimed ''a'' Queued [] 5, mkTimed ''b'' Pending [''a''] 3,
                 mkTimed ''c'' Queued [] 4]"

lemmas eta_defs =
  calculateOrderETA_def traverse_def orderTasks_def getStationQueues_def stationQueueOf_def
  initGraph_def initTask_def adjPush_def initialQueue_def taskMapOf_def taskETA_def
  maxDepETA_def etaGet_def estimateOr5_def numberOr5_def queueWaitMinutes_def queueWait_def
  elapsedMinutes_def stationNameOf_def dependentsOf_def degreeGet_def criticalTask_def
  criticalStep_def markCritical_def confidenceOf_def hasHistorical_def mathRound_def
  Let_def



text \<open>
  Identifiers for created rows (the n-th row created gets n + 1 letters), and a task
  definition of the oven with no subtask.
\<close>

definition uuidEx :: "nat \<Rightarrow> string" where
  "uuidEx n = replicate (Suc n) CHR ''u''"

definition mkTaskDef :: "string \<Rightarrow> rat \<Rightarrow> string list \<Rightarrow> task_def" where
  "mkTaskDef i m deps =
     \<lparr>td_id = i, td_name = i, td_station_type = ''oven'', td_estimated_minutes = m,
      td_depends_on = deps, td_subtasks = []\<rparr>"

section \<open>The workflow engine\<close>

subsection \<open>Statuses only move forward\<close>

text \<open>
  \<open>noReturn ts ts'\<close>: the table \<open>ts'\<close> holds the instances of \<open>ts\<close> in the same positions,
  and no instance that had left \<open>pending\<close> is \<open>pending\<close> again.
\<close>

definition noReturn :: "'a task_instance_scheme list \<Rightarrow> 'a task_instance_scheme list \<Rightarrow> bool" where
  "noReturn ts ts' =
     list_all2 (\<lambda>t t'. t_id t' = t_id t \<and> (t_status t \<noteq> Pending \<longrightarrow> t_status t' \<noteq> Pending)) ts ts'"

datatype server_op =
  Activate string string
| Start string string string int
| Complete string string string int
| CompleteSubtask string string string string int

text \<open>An operation that throws has written nothing: the state is the one before.\<close>

fun runServerOp :: "server_op \<Rightarrow> db \<Rightarrow> db" where
  "runServerOp (Activate tenantId orderId) d = snd (activateReadyTasks tenantId orderId d)"
| "runServerOp (Start taskId userId tenantId now) d =
     (case startTask taskId userId tenantId now d of Inl e \<Rightarrow> d | Inr d' \<Rightarrow> d')"
| "runServerOp (Complete taskId userId tenantId now) d =
     (case completeTask taskId userId tenantId now d of Inl e \<Rightarrow> d | Inr r \<Rightarrow> snd r)"
| "runServerOp (CompleteSubtask taskId subtaskId userId tenantId now) d =
     (case completeSubtask taskId subtaskId userId tenantId now d of Inl e \<Rightarrow> d | Inr d' \<Rightarrow> d')"

datatype client_op =
  StartOffline string string string string int
| CompleteOffline string string string string int
| CompleteSubtaskOffline string string string string string int

fun runClientOp :: "client_op \<Rightarrow> client \<Rightarrow> client" where
  "runClientOp (StartOffline tenantId userId taskId newId now) c =
     startTaskOffline tenantId userId taskId newId now c"
| "runClientOp (CompleteOffline tenantId userId taskId newId now) c =
     (case completeTaskOffline tenantId userId taskId newId now c of Inl e \<Rightarrow> c | Inr r \<Rightarrow> snd r)"
| "runClientOp (CompleteSubtaskOffline tenantId userId taskId subtaskId newId now) c =
     completeSubtaskOffline tenantId userId taskId subtaskId newId now c"

lemma noReturn_refl [simp]: "noReturn ts ts"
  by (simp add: noReturn_def list_all2_same)

lemma noReturn_trans: "noReturn ts ts' \<Longrightarrow> noReturn ts' ts'' \<Longrightarrow> noReturn ts ts''"
proof -
  assume a: "noReturn ts ts'" and b: "noReturn ts' ts''"
  show ?thesis
    unfolding noReturn_def
  proof (rule list_all2_trans [OF _ a [unfolded noReturn_def] b [unfolded noReturn_def]])
    fix x y z :: "'a task_instance_scheme"
    assume "t_id y = t_id x \<and> (t_status x \<noteq> Pending \<longrightarrow> t_status y \<noteq> Pending)"
      and "t_id z = t_id y \<and> (t_status y \<noteq> Pending \<longrightarrow> t_status z \<noteq> Pending)"
    then show "t_id z = t_id x \<and> (t_status x \<noteq> Pending \<longrightarrow> t_status z \<noteq> Pending)" by auto
  qed
qed

lemma noReturn_map:
  "(\<And>t. t_id (f t) = t_id t \<and> (t_status t \<noteq> Pending \<longrightarrow> t_status (f t) \<noteq> Pending))
     \<Longrightarrow> noReturn ts (map f ts)"
  by (simp add: noReturn_def list_all2_map2 list_all2_same)

lemma noReturn_setTaskStatus: "st \<noteq> Pending \<Longrightarrow> noReturn ts (setTaskStatus i st ts)"
  unfolding setTaskStatus_def by (rule noReturn_map) simp

lemma noReturn_activateLoop: "noReturn ts (fst (activateLoop ps ts n))"
proof (induction ps arbitrary: ts n)
  case Nil
  then show ?case by simp
next
  case (Cons p ps)
  have q: "noReturn ts (setTaskStatus (t_id p) Queued ts)"
    by (rule noReturn_setTaskStatus) simp
  show ?case
    using noReturn_trans [OF q Cons.IH [of "setTaskStatus (t_id p) Queued ts"]] Cons.IH [of ts]
    by (simp add: Let_def)
qed

lemma noReturn_activateReadyTasks:
  "noReturn (taskInstances d) (taskInstances (snd (activateReadyTasks tenantId orderId d)))"
  using noReturn_activateLoop [of "taskInstances d" "pendingTasks tenantId orderId (taskInstances d)" 0]
  by (simp add: activateReadyTasks_def split_beta)

lemma checkOrderCompletion_tasks [simp]:
  "taskInstances (snd (checkOrderCompletion tenantId orderId now d)) = taskInstances d"
  by (simp add: checkOrderCompletion_def Let_def)

lemma recordDuration_tasks [simp]: "taskInstances (recordDuration task tenantId now d) = taskInstances d"
  by (simp add: recordDuration_def split: option.splits)

lemma autoCompleteSubtasks_tasks [simp]:
  "taskInstances (autoCompleteSubtasks taskId userId now d) = taskInstances d"
  by (simp add: autoCompleteSubtasks_def Let_def)

lemma noReturn_startTask:
  "startTask taskId userId tenantId now d = Inr d' \<Longrightarrow> noReturn (taskInstances d) (taskInstances d')"
  by (auto simp: startTask_def split: option.splits if_splits intro!: noReturn_map)

lemma noReturn_completeTask:
  assumes "completeTask taskId userId tenantId now d = Inr r"
  shows "noReturn (taskInstances d) (taskInstances (snd r))"
proof -
  from assms obtain task where f: "findTask taskId tenantId (taskInstances d) = Some task"
    by (auto simp: completeTask_def split: option.splits)
  define d2 where "d2 = recordDuration task tenantId now (autoCompleteSubtasks taskId userId now d)"
  define d3 where "d3 = d2\<lparr>taskInstances :=
                          map (\<lambda>t. if t_id t = taskId
                                   then t\<lparr>t_status := Done, t_completedAt := Some now,
                                          t_completedById := Some userId,
                                          t_startedAt := (case t_startedAt task of
                                                            None \<Rightarrow> Some now | Some s \<Rightarrow> Some s)\<rparr>
                                   else t) (taskInstances d2)\<rparr>"
  have a: "noReturn (taskInstances d) (taskInstances d3)"
    unfolding d3_def d2_def by (simp, rule noReturn_map) simp
  have "taskInstances (snd r) = taskInstances (snd (activateReadyTasks tenantId (t_orderId task) d3))"
    using assms f unfolding d3_def d2_def
    by (auto simp: completeTask_def Let_def split: if_splits)
  with noReturn_trans [OF a noReturn_activateReadyTasks [of d3 tenantId "t_orderId task"]]
  show ?thesis by simp
qed

lemma noReturn_completeSubtask:
  "completeSubtask taskId subtaskId userId tenantId now d = Inr d' \<Longrightarrow> taskInstances d' = taskInstances d"
  by (auto simp: completeSubtask_def split: option.splits if_splits)

lemma noReturn_runServerOp: "noReturn (taskInstances d) (taskInstances (runServerOp x d))"
proof (cases x)
  case (Activate tenantId orderId)
  then show ?thesis by (simp add: noReturn_activateReadyTasks)
next
  case (Start taskId userId tenantId now)
  then show ?thesis by (auto split: sum.splits dest: noReturn_startTask)
next
  case (Complete taskId userId tenantId now)
  then show ?thesis by (auto split: sum.splits dest: noReturn_completeTask)
next
  case (CompleteSubtask taskId subtaskId userId tenantId now)
  then show ?thesis by (auto split: sum.splits dest: noReturn_completeSubtask)
qed

lemma enqueueEvent_tasks [simp]:
  "c_tasks (enqueueEvent tenantId userId ty ety eid newId now c) = c_tasks c"
  by (simp add: enqueueEvent_def Let_def)

lemma noReturn_activateDependent:
  "noReturn tbl (activateDependent taskId snapshot depTask tbl)"
  unfolding activateDependent_def by (auto intro!: noReturn_map split: if_splits)

lemma noReturn_fold_activateDependent:
  "noReturn tbl (fold (activateDependent taskId snapshot) ps tbl)"
proof (induction ps arbitrary: tbl)
  case Nil
  then show ?case by simp
next
  case (Cons p ps)
  show ?case
    using noReturn_trans [OF noReturn_activateDependent Cons.IH] by simp
qed

lemma noReturn_runClientOp: "noReturn (c_tasks c) (c_tasks (runClientOp x c))"
proof (cases x)
  case (StartOffline tenantId userId taskId newId now)
  then show ?thesis by (auto simp: startTaskOffline_def intro!: noReturn_map split: if_splits)
next
  case (CompleteOffline tenantId userId taskId newId now)
  show ?thesis
  proof (cases "find (\<lambda>t. t_id t = taskId) (c_tasks c)")
    case None
    with CompleteOffline show ?thesis by (simp add: completeTaskOffline_def)
  next
    case (Some task)
    define tasks1 where "tasks1 = map (\<lambda>t. if t_id t = taskId
                                 then t\<lparr>t_status := Done, t_completedAt := Some now,
                                        t_completedById := Some userId,
                                        t_startedAt := (case t_startedAt task of
                                                          None \<Rightarrow> Some now | Some s \<Rightarrow> Some s),
                                        lt_syncStatus := SModified\<rparr>
                                 else t) (c_tasks c)"
    have a: "noReturn (c_tasks c) tasks1" unfolding tasks1_def by (rule noReturn_map) simp
    have "c_tasks (runClientOp x c)
            = fold (activateDependent taskId
                      (filter (\<lambda>t. t_orderId t = t_orderId task \<and> t_tenantId t = tenantId) tasks1))
                   (filter (\<lambda>t. t_orderId t = t_orderId task \<and> t_tenantId t = tenantId) tasks1) tasks1"
      using CompleteOffline Some unfolding tasks1_def by (simp add: completeTaskOffline_def Let_def)
    with noReturn_trans [OF a noReturn_fold_activateDependent] show ?thesis by simp
  qed
next
  case (CompleteSubtaskOffline tenantId userId taskId subtaskId newId now)
  then show ?thesis by (simp add: completeSubtaskOffline_def)
qed

text \<open>
  Claim C9. Whatever sequence of activations, starts, completions and subtask completions
  runs, on the server or on the local store of the client, every instance keeps its place
  and its id, and an instance that is not \<open>pending\<close> before the sequence is not \<open>pending\<close>
  after it.
\<close>

theorem status_never_returns_to_pending:
  "noReturn (taskInstances d) (taskInstances (fold runServerOp ops d))
   \<and> noReturn (c_tasks c) (c_tasks (fold runClientOp cops c))"
proof
  show "noReturn (taskInstances d) (taskInstances (fold runServerOp ops d))"
  proof (induction ops arbitrary: d)
    case Nil
    then show ?case by simp
  next
    case (Cons x ops)
    show ?case using noReturn_trans [OF noReturn_runServerOp Cons.IH] by simp
  qed
  show "noReturn (c_tasks c) (c_tasks (fold runClientOp cops c))"
  proof (induction cops arbitrary: c)
    case Nil
    then show ?case by simp
  next
    case (Cons x cops)
    show ?case using noReturn_trans [OF noReturn_runClientOp Cons.IH] by simp
  qed
qed

text \<open>Task \<open>a\<close> is in progress since instant 1000; task \<open>b\<close> waits for it.\<close>

definition twoTaskDb :: db where
  "twoTaskDb = mkDb [(mkTask ''a'' InProgress [])\<lparr>t_startedAt := Some 1000\<rparr>,
                     mkTask ''b'' Pending [''a'']]"

definition twoTaskClient :: client where
  "twoTaskClient =
     mkClient [mkLocalOrder ''o1'' OPreparing SSynced]
       [mkLocalTask ((mkTask ''a'' InProgress [])\<lparr>t_startedAt := Some 1000\<rparr>) SSynced,
        mkLocalTask (mkTask ''b'' Pending [''a'']) SSynced] [] []"

lemmas offline_defs =
  startTaskOffline_def completeTaskOffline_def completeSubtaskOffline_def enqueueEvent_def
  activateDependent_def allDepsDone_def Let_def

theorem status_never_returns_to_pending_witness:
  "noReturn (taskInstances twoTaskDb)
     (taskInstances (fold runServerOp
        [Complete ''a'' ''u1'' ''t1'' 61000, Activate ''t1'' ''o1'', Complete ''a'' ''u2'' ''t1'' 62000,
         Start ''b'' ''u1'' ''t1'' 63000] twoTaskDb))
   \<and> map t_status (taskInstances (fold runServerOp
        [Complete ''a'' ''u1'' ''t1'' 61000, Activate ''t1'' ''o1'', Complete ''a'' ''u2'' ''t1'' 62000,
         Start ''b'' ''u1'' ''t1'' 63000] twoTaskDb)) = [Done, InProgress]
   \<and> noReturn (c_tasks twoTaskClient)
        (c_tasks (fold runClientOp
           [CompleteOffline ''t1'' ''u1'' ''a'' ''e1'' 61000,
            StartOffline ''t1'' ''u1'' ''b'' ''e2'' 63000] twoTaskClient))
   \<and> map t_status (c_tasks (fold runClientOp
           [CompleteOffline ''t1'' ''u1'' ''a'' ''e1'' 61000,
            StartOffline ''t1'' ''u1'' ''b'' ''e2'' 63000] twoTaskClient)) = [Done, InProgress]"
proof -
  note t = status_never_returns_to_pending
    [of twoTaskDb "[Complete ''a'' ''u1'' ''t1'' 61000, Activate ''t1'' ''o1'',
                    Complete ''a'' ''u2'' ''t1'' 62000, Start ''b'' ''u1'' ''t1'' 63000]"
        twoTaskClient "[CompleteOffline ''t1'' ''u1'' ''a'' ''e1'' 61000,
                        StartOffline ''t1'' ''u1'' ''b'' ''e2'' 63000]"]
  have s: "map t_status (taskInstances (fold runServerOp
        [Complete ''a'' ''u1'' ''t1'' 61000, Activate ''t1'' ''o1'', Complete ''a'' ''u2'' ''t1'' 62000,
         Start ''b'' ''u1'' ''t1'' 63000] twoTaskDb)) = [Done, InProgress]"
    by (simp add: twoTaskDb_def example_defs engine_defs)
  have c: "map t_status (c_tasks (fold runClientOp
           [CompleteOffline ''t1'' ''u1'' ''a'' ''e1'' 61000,
            StartOffline ''t1'' ''u1'' ''b'' ''e2'' 63000] twoTaskClient)) = [Done, InProgress]"
    by (simp add: twoTaskClient_def example_defs client_defs offline_defs)
  from conjunct1 [OF t] s conjunct2 [OF t] c show ?thesis by (intro conjI)
qed

subsection \<open>What activation does\<close>


text \<open>The test of the loop of \<open>activateReadyTasks\<close> on one pending row.\<close>

definition ready :: "task_instance list \<Rightarrow> task_instance \<Rightarrow> bool" where
  "ready ts t = (t_dependsOn t = [] \<or> completedDeps ts (t_dependsOn t) = length (t_dependsOn t))"

definition promote :: "task_instance list \<Rightarrow> task_instance set \<Rightarrow> task_instance \<Rightarrow> task_instance" where
  "promote ts A t = (if t \<in> A \<and> ready ts t then t\<lparr>t_status := Queued\<rparr> else t)"

lemma id_determines_task:
  "distinct (map t_id ts) \<Longrightarrow> t \<in> set ts \<Longrightarrow> t' \<in> set ts \<Longrightarrow> t_id t = t_id t' \<Longrightarrow> t = t'"
  by (induction ts) (auto simp: image_iff)

lemma completedDeps_promote:
  assumes "\<forall>a \<in> A. t_status a = Pending"
  shows "completedDeps (map (promote ts0 A) ts) deps = completedDeps ts deps"
proof -
  have "(t_id (promote ts0 A t) \<in> set deps \<and> t_status (promote ts0 A t) = Done)
          = (t_id t \<in> set deps \<and> t_status t = Done)" for t
    using assms by (auto simp: promote_def)
  then show ?thesis
    by (simp add: completedDeps_def filter_map comp_def)
qed

lemma activateLoop_promotes:
  assumes d: "distinct (map t_id ts0)"
  shows "set ps \<subseteq> set ts0 \<Longrightarrow> \<forall>p \<in> set ps. t_status p = Pending \<Longrightarrow>
         A \<subseteq> set ts0 \<Longrightarrow> \<forall>a \<in> A. t_status a = Pending \<Longrightarrow>
         fst (activateLoop ps (map (promote ts0 A) ts0) n) = map (promote ts0 (A \<union> set ps)) ts0"
proof (induction ps arbitrary: A n)
  case Nil
  then show ?case by simp
next
  case (Cons p ps)
  from Cons.prems have p: "p \<in> set ts0" "t_status p = Pending" by auto
  let ?ts = "map (promote ts0 A) ts0"
  have cd: "completedDeps ?ts (t_dependsOn p) = completedDeps ts0 (t_dependsOn p)"
    using Cons.prems(4) by (rule completedDeps_promote)
  have A': "insert p A \<subseteq> set ts0" "\<forall>a \<in> insert p A. t_status a = Pending"
    using Cons.prems p by auto
  have ps: "set ps \<subseteq> set ts0" "\<forall>p \<in> set ps. t_status p = Pending" using Cons.prems by auto
  have sets: "A \<union> set (p # ps) = insert p A \<union> set ps" by simp
  show ?case
  proof (cases "ready ts0 p")
    case True
    have e0: "setTaskStatus (t_id p) Queued ?ts = map (promote ts0 (insert p A)) ts0"
      unfolding setTaskStatus_def map_map
    proof (rule map_cong [OF refl])
      fix t assume t: "t \<in> set ts0"
      show "((\<lambda>t. if t_id t = t_id p then t\<lparr>t_status := Queued\<rparr> else t) \<circ> promote ts0 A) t
              = promote ts0 (insert p A) t"
      proof (cases "t = p")
        case True
        with \<open>ready ts0 p\<close> show ?thesis by (simp add: promote_def)
      next
        case False
        with id_determines_task [OF d t p(1)] have "t_id t \<noteq> t_id p" by auto
        with False show ?thesis by (simp add: promote_def)
      qed
    qed
    have c: "t_dependsOn p = [] \<or> completedDeps ?ts (t_dependsOn p) = length (t_dependsOn p)"
      using True unfolding ready_def cd .
    have e1: "fst (activateLoop (p # ps) ?ts n)
                = fst (activateLoop ps (setTaskStatus (t_id p) Queued ?ts) (n + 1))"
      using c by (cases "t_dependsOn p = []") (simp_all add: Let_def)
    have e2: "fst (activateLoop ps (map (promote ts0 (insert p A)) ts0) (n + 1))
                = map (promote ts0 (insert p A \<union> set ps)) ts0"
      by (rule Cons.IH [OF ps A'])
    show ?thesis unfolding e1 e0 e2 sets ..
  next
    case False
    have e0: "map (promote ts0 (insert p A)) ts0 = ?ts"
    proof (rule map_cong [OF refl])
      fix t assume "t \<in> set ts0"
      show "promote ts0 (insert p A) t = promote ts0 A t"
        using False by (cases "t = p") (simp_all add: promote_def)
    qed
    have c: "t_dependsOn p \<noteq> [] \<and> completedDeps ?ts (t_dependsOn p) \<noteq> length (t_dependsOn p)"
      using False unfolding ready_def cd by simp
    have e1: "fst (activateLoop (p # ps) ?ts n) = fst (activateLoop ps ?ts n)"
      using c by (simp add: Let_def)
    have e2: "fst (activateLoop ps (map (promote ts0 (insert p A)) ts0) n)
                = map (promote ts0 (insert p A \<union> set ps)) ts0"
      by (rule Cons.IH [OF ps A'])
    show ?thesis unfolding e1 sets using e2 unfolding e0 .
  qed
qed

lemma activateReadyTasks_tasks:
  assumes d: "distinct (map t_id (taskInstances d))"
  shows "taskInstances (snd (activateReadyTasks tenantId orderId d))
           = map (promote (taskInstances d) (set (pendingTasks tenantId orderId (taskInstances d))))
                 (taskInstances d)"
proof -
  let ?ts = "taskInstances d"
  let ?ps = "pendingTasks tenantId orderId ?ts"
  have e: "map (promote ?ts {}) ?ts = ?ts" by (rule map_idI) (simp add: promote_def)
  have "fst (activateLoop ?ps (map (promote ?ts {}) ?ts) 0) = map (promote ?ts ({} \<union> set ?ps)) ?ts"
    by (rule activateLoop_promotes [OF d]) (simp_all add: pendingTasks_def)
  then have "fst (activateLoop ?ps ?ts 0) = map (promote ?ts (set ?ps)) ?ts"
    unfolding e by simp
  then show ?thesis by (simp add: activateReadyTasks_def split_beta)
qed










subsection \<open>Completing a task that is already done\<close>

lemma findTask_distinct:
  "distinct (map t_id ts) \<Longrightarrow> t \<in> set ts \<Longrightarrow> t_tenantId t = tenantId \<Longrightarrow>
     findTask (t_id t) tenantId ts = Some t"
  by (induction ts) (auto simp: findTask_def image_iff)

lemma findTask_Some:
  "findTask taskId tenantId ts = Some t \<Longrightarrow> t \<in> set ts \<and> t_id t = taskId \<and> t_tenantId t = tenantId"
  by (auto simp: findTask_def find_Some_iff)

lemma completeTask_done:
  assumes f: "findTask taskId tenantId (taskInstances d) = Some task" and st: "t_status task = Done"
  shows "completeTask taskId userId tenantId now d = Inl (TaskNonCompletabile Done)"
  using f st by (simp add: completeTask_def)

text \<open>
  Claim C1, on the code. The guard of \<open>completeTask\<close> accepts only \<open>queued\<close> and
  \<open>in_progress\<close>: once a completion has succeeded, a second call for the same task throws
  \<open>Task non completabile (stato: done)\<close>. (It writes nothing, so no second duration
  sample is recorded; but the caller receives an error, not success.)
\<close>

theorem second_completeTask_is_rejected:
  assumes d: "distinct (map t_id (taskInstances d))"
    and c: "completeTask taskId userId tenantId now d = Inr r"
  shows "completeTask taskId userId' tenantId now' (snd r) = Inl (TaskNonCompletabile Done)"
proof -
  from c obtain task where f: "findTask taskId tenantId (taskInstances d) = Some task"
    by (auto simp: completeTask_def split: option.splits)
  then have task: "task \<in> set (taskInstances d)" "t_id task = taskId" "t_tenantId task = tenantId"
    by (auto dest: findTask_Some)
  define d2 where "d2 = recordDuration task tenantId now (autoCompleteSubtasks taskId userId now d)"
  define fin :: "task_instance \<Rightarrow> task_instance" where "fin = (\<lambda>t. if t_id t = taskId
                                   then t\<lparr>t_status := Done, t_completedAt := Some now,
                                          t_completedById := Some userId,
                                          t_startedAt := (case t_startedAt task of
                                                            None \<Rightarrow> Some now | Some s \<Rightarrow> Some s)\<rparr>
                                   else t)"
  define d3 where "d3 = d2\<lparr>taskInstances := map fin (taskInstances d2)\<rparr>"
  have ts3: "taskInstances d3 = map fin (taskInstances d)" by (simp add: d3_def d2_def)
  have ids: "map t_id (taskInstances d3) = map t_id (taskInstances d)"
    by (simp add: ts3 fin_def)
  then have d3: "distinct (map t_id (taskInstances d3))" using d by simp
  let ?A = "set (pendingTasks tenantId (t_orderId task) (taskInstances d3))"
  have r: "taskInstances (snd r) = map (promote (taskInstances d3) ?A) (taskInstances d3)"
  proof -
    have "taskInstances (snd r)
            = taskInstances (snd (activateReadyTasks tenantId (t_orderId task) d3))"
      using c f unfolding d3_def d2_def fin_def
      by (auto simp: completeTask_def Let_def split: if_splits)
    then show ?thesis using activateReadyTasks_tasks [OF d3] by simp
  qed
  have m: "fin task \<in> set (taskInstances d3)" using task(1) by (simp add: ts3)
  have fd: "t_status (fin task) = Done" "t_id (fin task) = taskId" "t_tenantId (fin task) = tenantId"
    using task by (simp_all add: fin_def)
  have "fin task \<notin> ?A" using fd by (simp add: pendingTasks_def)
  then have "promote (taskInstances d3) ?A (fin task) = fin task" by (simp add: promote_def)
  with m have m': "fin task \<in> set (taskInstances (snd r))" unfolding r by force
  have "distinct (map t_id (taskInstances (snd r)))"
    unfolding r using d3 by (simp add: promote_def comp_def if_distrib cong: if_cong)
  from findTask_distinct [OF this m' fd(3)]
  have "findTask taskId tenantId (taskInstances (snd r)) = Some (fin task)" by (simp add: fd)
  then show ?thesis using fd(1) by (rule completeTask_done)
qed

theorem second_completeTask_is_rejected_witness:
  "distinct (map t_id (taskInstances twoTaskDb))
   \<and> map t_status (taskInstances (snd (projr (completeTask ''a'' ''u1'' ''t1'' 61000 twoTaskDb))))
       = [Done, Queued]
   \<and> map d_durationSeconds
        (taskDurations (snd (projr (completeTask ''a'' ''u1'' ''t1'' 61000 twoTaskDb)))) = [60]
   \<and> completeTask ''a'' ''u2'' ''t1'' 62000
        (snd (projr (completeTask ''a'' ''u1'' ''t1'' 61000 twoTaskDb)))
       = Inl (TaskNonCompletabile Done)"
proof -
  have h: "distinct (map t_id (taskInstances twoTaskDb))"
    by (simp add: twoTaskDb_def example_defs)
  have "\<exists>r. completeTask ''a'' ''u1'' ''t1'' 61000 twoTaskDb = Inr r"
    by (simp add: twoTaskDb_def example_defs engine_defs)
  then obtain r where c: "completeTask ''a'' ''u1'' ''t1'' 61000 twoTaskDb = Inr r" ..
  have s: "map t_status (taskInstances (snd (projr (completeTask ''a'' ''u1'' ''t1'' 61000 twoTaskDb))))
             = [Done, Queued]"
    by (simp add: twoTaskDb_def example_defs engine_defs)
  have du: "map d_durationSeconds
        (taskDurations (snd (projr (completeTask ''a'' ''u1'' ''t1'' 61000 twoTaskDb)))) = [60]"
    by (simp add: twoTaskDb_def example_defs engine_defs)
  from second_completeTask_is_rejected [OF h c, of "''u2''" 62000]
  have "completeTask ''a'' ''u2'' ''t1'' 62000
          (snd (projr (completeTask ''a'' ''u1'' ''t1'' 61000 twoTaskDb)))
        = Inl (TaskNonCompletabile Done)"
    by (simp add: c)
  with h s du show ?thesis by (intro conjI)
qed

section \<open>Facts about numbers\<close>

text \<open>
  Some values of the rounding: 0.1 and 1 / 3 are not doubles; 0.1 + 0.2 is
  0.30000000000000004; above \<open>2^53\<close> a tie goes to the even neighbour.
\<close>

lemma roundDouble_examples:
  "roundDouble 5 = Fin 5"
  "roundDouble (1 / 10) = Fin (3602879701896397 / 36028797018963968)"
  "roundDouble (1 / 3) = Fin (6004799503160661 / 18014398509481984)"
  "fadd (roundDouble (1 / 10)) (roundDouble (2 / 10)) = Fin (1351079888211149 / 4503599627370496)"
  "roundDouble (9007199254740993) = Fin 9007199254740992"
  "roundDouble (9007199254740995) = Fin 9007199254740996"
  by code_simp+

lemma special_value_examples:
  "fdiv (Fin 5) (Fin 0) = PosInf"
  "fdiv (Fin 0) (Fin 0) = NaN"
  "fmul PosInf (Fin 0) = NaN"
  "fsub PosInf PosInf = NaN"
  "mathMax [Fin 0, NaN] = NaN"
  "mathMax [] = NegInf"
  "jsGt NaN (Fin 0) = False"
  "mathRound (Fin (5 / 2)) = Fin 3"
  "mathRound (Fin (- 5 / 2)) = Fin (- 2)"
  "mathCeil (Fin (1351079888211149 / 450359962737049600)) = Fin 1"
  "newDate PosInf = None"
  "newDate (Fin (- 3 / 2)) = Some (- 1)"
  by code_simp+

lemma NaN_least [simp]: "NaN \<le> (a :: number)"
  by (simp add: less_eq_number_def)

lemma le_NaN_iff [simp]: "(a :: number) \<le> NaN \<longleftrightarrow> a = NaN"
  by (cases a) (simp_all add: less_eq_number_def)

lemma not_less_NaN [simp]: "\<not> (a :: number) < NaN"
  by (simp add: less_number_def)


lemma Fin_le_iff [simp]: "Fin x \<le> Fin y \<longleftrightarrow> x \<le> y"
  by (simp add: less_eq_number_def)

lemma Fin_less_iff [simp]: "Fin x < Fin y \<longleftrightarrow> x < y"
  by (auto simp add: less_number_def)

lemma zero_not_NaN [simp]: "(0 :: number) \<noteq> NaN" "NaN \<noteq> (0 :: number)"
  by (simp_all add: zero_number_def)

lemma roundDouble_not_NaN [simp]: "roundDouble x \<noteq> NaN"
  by (simp add: roundDouble_def Let_def)

lemma jsGt_less: "b \<noteq> NaN \<Longrightarrow> jsGt a b \<longleftrightarrow> b < a"
  by (cases "a = NaN") (simp_all add: jsGt_def)

lemma jsGt_not_NaN: "jsGt a b \<Longrightarrow> a \<noteq> NaN"
  by (simp add: jsGt_def)




section \<open>The ETA traversal\<close>

subsection \<open>Maps kept in insertion order\<close>

lemma map_of_mapSet [simp]:
  "map_of (mapSet k v m) k' = (if k' = k then Some v else map_of m k')"
  by (induction m) auto

lemma keys_mapSet:
  "map fst (mapSet k v m) = (if k \<in> fst ` set m then map fst m else map fst m @ [k])"
  by (induction m) (auto simp: image_iff split: if_splits)

lemma set_keys_mapSet [simp]: "fst ` set (mapSet k v m) = insert k (fst ` set m)"
proof -
  have "set (map fst (mapSet k v m)) = insert k (set (map fst m))"
    unfolding keys_mapSet by auto
  then show ?thesis by simp
qed

lemma distinct_keys_mapSet [simp]:
  "distinct (map fst m) \<Longrightarrow> distinct (map fst (mapSet k v m))"
  by (simp add: keys_mapSet)

lemma map_apsnd_mapSet:
  "map (apsnd f) (mapSet k v m) = mapSet k (f v) (map (apsnd f) m)"
  by (induction m) auto

lemma set_mapSet_subset: "set (mapSet k v m) \<subseteq> insert (k, v) (set m)"
  by (induction m) (auto split: if_splits)

lemma map_of_fold_mapSet:
  "distinct (map key xs) \<Longrightarrow>
     map_of (fold (\<lambda>x m. mapSet (key x) (val x) m) xs m0) k
       = (case find (\<lambda>x. key x = k) xs of None \<Rightarrow> map_of m0 k | Some x \<Rightarrow> Some (val x))"
proof (induction xs arbitrary: m0)
  case Nil
  then show ?case by simp
next
  case (Cons x xs)
  then have "key x \<notin> key ` set xs" by auto
  then have "key x = k \<Longrightarrow> find (\<lambda>y. key y = k) xs = None"
    unfolding find_None_iff by (metis image_eqI)
  with Cons show ?case by (auto split: option.splits)
qed

lemma keys_fold_mapSet:
  "fst ` set (fold (\<lambda>x m. mapSet (key x) (val x) m) xs m0) = key ` set xs \<union> fst ` set m0"
  by (induction xs arbitrary: m0) auto


subsection \<open>The dependency graph built by the initialisation loop\<close>

text \<open>The entries one task contributes to the list of dependents of \<open>x\<close>.\<close>

definition occ :: "string \<Rightarrow> task_instance \<Rightarrow> string list" where
  "occ x task = map (\<lambda>d. t_id task) (filter (\<lambda>d. d = x) (t_dependsOn task))"

lemma dependentsOf_mapSet [simp]:
  "dependentsOf (mapSet k v adj) x = (if x = k then v else dependentsOf adj x)"
  by (simp add: dependentsOf_def)

lemma adjPush_dependentsOf:
  "dependentsOf (adjPush dep tid adj) x = dependentsOf adj x @ (if dep = x then [tid] else [])"
  by (auto simp: adjPush_def dependentsOf_def Let_def split: option.splits)

lemma fold_adjPush_dependentsOf:
  "dependentsOf (fold (\<lambda>dep adj. adjPush dep tid adj) deps adj) x
     = dependentsOf adj x @ map (\<lambda>d. tid) (filter (\<lambda>d. d = x) deps)"
  by (induction deps arbitrary: adj) (auto simp: adjPush_dependentsOf)

lemma initTask_dependentsOf:
  "dependentsOf (snd (initTask task g)) x = dependentsOf (snd g) x @ occ x task"
proof -
  have "dependentsOf (if map_of (snd g) (t_id task) = None
                      then mapSet (t_id task) [] (snd g) else snd g) x = dependentsOf (snd g) x"
    by (auto simp: dependentsOf_def)
  then show ?thesis
    by (simp add: initTask_def Let_def fold_adjPush_dependentsOf occ_def)
qed

lemma initGraph_dependentsOf:
  "dependentsOf (snd (fold initTask tasks g)) x
     = dependentsOf (snd g) x @ concat (map (occ x) tasks)"
  by (induction tasks arbitrary: g) (auto simp: initTask_dependentsOf)

lemma initTask_inDegree:
  "fst (initTask task g) = mapSet (t_id task) (int (length (t_dependsOn task))) (fst g)"
  by (simp add: initTask_def Let_def)

lemma initGraph_inDegree:
  "fst (fold initTask tasks g)
     = fold (\<lambda>t m. mapSet (t_id t) (int (length (t_dependsOn t))) m) tasks (fst g)"
  by (induction tasks arbitrary: g) (auto simp: initTask_inDegree)

lemma count_occ:
  "count_list (occ x task) i = (if t_id task = i then count_list (t_dependsOn task) x else 0)"
proof -
  have "count_list (map (\<lambda>d. c) ds) i = (if c = i then length ds else 0)" for c :: string and ds :: "string list"
    by (induction ds) auto
  moreover have "length (filter (\<lambda>d. d = x) ds) = count_list ds x" for ds :: "string list"
    by (induction ds) auto
  ultimately show ?thesis by (simp add: occ_def)
qed

lemma count_list_concat:
  "count_list (concat xss) i = sum_list (map (\<lambda>xs. count_list xs i) xss)"
  by (induction xss) auto

lemma count_dependents:
  assumes "distinct (map t_id tasks)" and "t \<in> set tasks"
  shows "count_list (concat (map (occ x) tasks)) (t_id t) = count_list (t_dependsOn t) x"
  using assms
proof (induction tasks)
  case Nil
  then show ?case by simp
next
  case (Cons a tasks)
  show ?case
  proof (cases "t = a")
    case True
    have "t_id a \<notin> t_id ` set tasks" using Cons.prems by auto
    then have "\<forall>b \<in> set tasks. t_id b \<noteq> t_id a" by (metis image_eqI)
    then have "sum_list (map (\<lambda>xs. count_list xs (t_id a)) (map (occ x) tasks)) = 0"
      by (simp add: count_occ comp_def)
    with True show ?thesis by (simp add: count_list_concat count_occ)
  next
    case False
    with Cons.prems have t: "t \<in> set tasks" and "t_id a \<noteq> t_id t" by auto
    with Cons show ?thesis by (simp add: count_occ)
  qed
qed

lemma set_dependents: "set (concat (map (occ x) tasks)) \<subseteq> t_id ` set tasks"
  by (auto simp: occ_def)

subsection \<open>The loop over the dependents\<close>

lemma degreeGet_mapSet [simp]:
  "degreeGet (mapSet k n deg) k' = (if k' = k then n else degreeGet deg k')"
  by (simp add: degreeGet_def)

lemma processDependents_spec:
  "\<exists>ps. snd (processDependents ds deg q) = q @ ps \<and> distinct ps
        \<and> set ps = {k \<in> set ds. 1 \<le> degreeGet deg k \<and> degreeGet deg k \<le> int (count_list ds k)}
        \<and> (\<forall>k. degreeGet (fst (processDependents ds deg q)) k
                  = degreeGet deg k - int (count_list ds k))"
proof (induction ds arbitrary: deg q)
  case Nil
  then show ?case by simp
next
  case (Cons d ds)
  let ?n = "degreeGet deg d - 1"
  let ?deg = "mapSet d ?n deg"
  let ?q = "if ?n = 0 then q @ [d] else q"
  have step: "processDependents (d # ds) deg q = processDependents ds ?deg ?q"
    by (simp add: Let_def)
  from Cons.IH [of ?deg ?q] obtain ps where
    q: "snd (processDependents ds ?deg ?q) = ?q @ ps" and dps: "distinct ps"
    and sps: "set ps = {k \<in> set ds. 1 \<le> degreeGet ?deg k \<and> degreeGet ?deg k \<le> int (count_list ds k)}"
    and dg: "\<forall>k. degreeGet (fst (processDependents ds ?deg ?q)) k
                  = degreeGet ?deg k - int (count_list ds k)"
    by blast
  let ?ps = "if ?n = 0 then d # ps else ps"
  have 1: "snd (processDependents (d # ds) deg q) = q @ ?ps" using q step by simp
  have 2: "distinct ?ps" using dps sps by auto
  have 3: "set ?ps = {k \<in> set (d # ds). 1 \<le> degreeGet deg k
                        \<and> degreeGet deg k \<le> int (count_list (d # ds) k)}"
  proof (intro set_eqI iffI)
    fix k assume "k \<in> set ?ps"
    then consider "?n = 0" "k = d" | "k \<in> set ps" by (auto split: if_splits)
    then show "k \<in> {k \<in> set (d # ds). 1 \<le> degreeGet deg k
                        \<and> degreeGet deg k \<le> int (count_list (d # ds) k)}"
    proof cases
      case 1
      then show ?thesis by simp
    next
      case 2
      then show ?thesis using sps by (auto split: if_splits)
    qed
  next
    fix k assume k: "k \<in> {k \<in> set (d # ds). 1 \<le> degreeGet deg k
                        \<and> degreeGet deg k \<le> int (count_list (d # ds) k)}"
    show "k \<in> set ?ps"
    proof (cases "k = d")
      case True
      show ?thesis
      proof (cases "?n = 0")
        case True
        with \<open>k = d\<close> show ?thesis by simp
      next
        case False
        with k \<open>k = d\<close> have "1 \<le> degreeGet ?deg d" "degreeGet ?deg d \<le> int (count_list ds d)"
          by auto
        moreover from this have "d \<in> set ds"
          by (metis count_list_0_iff int_ops(1) not_one_le_zero order.trans)
        ultimately have "d \<in> set ps" using sps by simp
        with \<open>k = d\<close> False show ?thesis by simp
      qed
    next
      case False
      with k have "k \<in> set ps" using sps by auto
      then show ?thesis by simp
    qed
  qed
  have 4: "\<forall>k. degreeGet (fst (processDependents (d # ds) deg q)) k
                  = degreeGet deg k - int (count_list (d # ds) k)"
    using dg step by auto
  from 1 2 3 4 show ?case by blast
qed

subsection \<open>The invariant of the traversal\<close>

text \<open>
  \<open>remaining P t\<close>: the number of entries of \<open>dependsOn\<close> of \<open>t\<close> that are not processed
  yet, \<open>P\<close> being the set of processed ids (the keys of \<open>taskETAMinutes\<close>).
\<close>

definition remaining :: "string set \<Rightarrow> task_instance \<Rightarrow> nat" where
  "remaining P t = length (filter (\<lambda>d. d \<notin> P) (t_dependsOn t))"

lemma remaining_0: "remaining P t = 0 \<longleftrightarrow> set (t_dependsOn t) \<subseteq> P"
  by (auto simp: remaining_def filter_empty_conv)

lemma remaining_insert:
  assumes "x \<notin> P"
  shows "remaining (insert x P) t + count_list (t_dependsOn t) x = remaining P t"
proof -
  have "length (filter (\<lambda>d. d \<notin> insert x P) ds) + count_list ds x
          = length (filter (\<lambda>d. d \<notin> P) ds)" for ds
    using assms by (induction ds) auto
  then show ?thesis by (simp add: remaining_def)
qed

text \<open>The ETA of a task depends on the ETA map only at the dependencies of the task.\<close>

lemma maxDepETA_cong:
  "\<forall>dep \<in> set deps. etaGet eta' dep = etaGet eta dep \<Longrightarrow> maxDepETA eta' deps = maxDepETA eta deps"
proof -
  assume "\<forall>dep \<in> set deps. etaGet eta' dep = etaGet eta dep"
  then have "map (etaGet eta') deps = map (etaGet eta) deps" by simp
  then show ?thesis by (simp only: maxDepETA_def)
qed

lemma taskETA_cong:
  "\<forall>dep \<in> set (t_dependsOn t). etaGet eta' dep = etaGet eta dep \<Longrightarrow>
     taskETA d sq now eta' t = taskETA d sq now eta t"
proof -
  assume "\<forall>dep \<in> set (t_dependsOn t). etaGet eta' dep = etaGet eta dep"
  then have "maxDepETA eta' (t_dependsOn t) = maxDepETA eta (t_dependsOn t)"
    by (rule maxDepETA_cong)
  then show ?thesis by (simp add: taskETA_def)
qed

lemma etaGet_mapSet: "dep \<noteq> x \<Longrightarrow> etaGet (mapSet x v eta) dep = etaGet eta dep"
  by (simp add: etaGet_def)

definition etaInv :: "db \<Rightarrow> (string \<times> station_queue) list \<Rightarrow> int \<Rightarrow> task_instance list
    \<Rightarrow> string list \<Rightarrow> (string \<times> int) list \<Rightarrow> (string \<times> number) list \<Rightarrow> bool" where
  "etaInv d sq now tasks queue deg eta \<longleftrightarrow>
     (\<forall>t \<in> set tasks. degreeGet deg (t_id t) = int (remaining (fst ` set eta) t)) \<and>
     distinct queue \<and>
     set queue = {i. \<exists>t \<in> set tasks. i = t_id t \<and> remaining (fst ` set eta) t = 0
                                    \<and> t_id t \<notin> fst ` set eta} \<and>
     fst ` set eta \<subseteq> t_id ` set tasks \<and>
     (\<forall>t \<in> set tasks. t_id t \<in> fst ` set eta \<longrightarrow>
          set (t_dependsOn t) \<subseteq> fst ` set eta
        \<and> map_of eta (t_id t) = Some (fst (taskETA d sq now eta t)))"

lemma etaInv_step:
  assumes ids: "distinct (map t_id tasks)"
    and cnt: "\<And>t. t \<in> set tasks \<Longrightarrow> count_list ds (t_id t) = count_list (t_dependsOn t) x"
    and sub: "set ds \<subseteq> t_id ` set tasks"
    and inv: "etaInv d sq now tasks (x # queue) deg eta"
    and tx: "tx \<in> set tasks" "t_id tx = x"
  shows "etaInv d sq now tasks (snd (processDependents ds deg queue))
           (fst (processDependents ds deg queue))
           (mapSet x (fst (taskETA d sq now eta tx)) eta)"
proof -
  let ?P = "fst ` set eta"
  let ?eta = "mapSet x (fst (taskETA d sq now eta tx)) eta"
  let ?P' = "fst ` set ?eta"
  have P': "?P' = insert x ?P" by simp
  from inv have I1: "\<And>t. t \<in> set tasks \<Longrightarrow> degreeGet deg (t_id t) = int (remaining ?P t)"
    and I2: "distinct (x # queue)"
    and I3: "set (x # queue) = {i. \<exists>t \<in> set tasks. i = t_id t \<and> remaining ?P t = 0 \<and> t_id t \<notin> ?P}"
    and I4: "?P \<subseteq> t_id ` set tasks"
    and I5: "\<And>t. t \<in> set tasks \<Longrightarrow> t_id t \<in> ?P \<Longrightarrow>
               set (t_dependsOn t) \<subseteq> ?P \<and> map_of eta (t_id t) = Some (fst (taskETA d sq now eta t))"
    unfolding etaInv_def by blast+
  have "x \<in> set (x # queue)" by simp
  with I3 obtain t0 where t0: "t0 \<in> set tasks" "x = t_id t0" "remaining ?P t0 = 0" "t_id t0 \<notin> ?P"
    by auto
  have "t0 = tx" using id_determines_task [OF ids t0(1) tx(1)] t0(2) tx(2) by simp
  with t0 have rx: "remaining ?P tx = 0" and xP: "x \<notin> ?P" by auto
  have depsx: "set (t_dependsOn tx) \<subseteq> ?P" using rx by (simp add: remaining_0)
  have rem: "\<And>t. remaining ?P' t + count_list (t_dependsOn t) x = remaining ?P t"
    unfolding P' using xP by (rule remaining_insert)
  from processDependents_spec [of ds deg queue] obtain ps where
    q: "snd (processDependents ds deg queue) = queue @ ps" and dps: "distinct ps"
    and sps: "set ps = {k \<in> set ds. 1 \<le> degreeGet deg k \<and> degreeGet deg k \<le> int (count_list ds k)}"
    and dg: "\<And>k. degreeGet (fst (processDependents ds deg queue)) k
                  = degreeGet deg k - int (count_list ds k)"
    by blast
  have processed: "remaining ?P t = 0" if "t \<in> set tasks" "t_id t \<in> ?P" for t
    using I5 [OF that] by (simp add: remaining_0)
  have in_ps: "t_id t \<in> set ps \<longleftrightarrow> 1 \<le> remaining ?P t \<and> remaining ?P' t = 0"
    if t: "t \<in> set tasks" for t
  proof
    assume "t_id t \<in> set ps"
    with sps have "1 \<le> degreeGet deg (t_id t)" "degreeGet deg (t_id t) \<le> int (count_list ds (t_id t))"
      by auto
    with I1 [OF t] cnt [OF t] rem [of t] show "1 \<le> remaining ?P t \<and> remaining ?P' t = 0" by auto
  next
    assume a: "1 \<le> remaining ?P t \<and> remaining ?P' t = 0"
    with rem [of t] have c: "count_list (t_dependsOn t) x = remaining ?P t" by simp
    with a cnt [OF t] have "count_list ds (t_id t) \<noteq> 0" by simp
    then have "t_id t \<in> set ds" by (simp add: count_list_0_iff)
    with a c I1 [OF t] cnt [OF t] sps show "t_id t \<in> set ps" by auto
  qed
  have N1: "\<forall>t \<in> set tasks. degreeGet (fst (processDependents ds deg queue)) (t_id t)
                 = int (remaining ?P' t)"
  proof
    fix t assume t: "t \<in> set tasks"
    show "degreeGet (fst (processDependents ds deg queue)) (t_id t) = int (remaining ?P' t)"
      using dg [of "t_id t"] I1 [OF t] cnt [OF t] rem [of t] by simp
  qed
  have queue_ready: "\<exists>t \<in> set tasks. k = t_id t \<and> remaining ?P t = 0 \<and> t_id t \<notin> ?P"
    if "k \<in> set queue" for k
    using I3 that by auto
  have N2: "distinct (snd (processDependents ds deg queue))"
  proof -
    have "set queue \<inter> set ps = {}"
    proof (rule ccontr)
      assume "set queue \<inter> set ps \<noteq> {}"
      then obtain k where k: "k \<in> set queue" "k \<in> set ps" by auto
      from queue_ready [OF k(1)] obtain t where t: "t \<in> set tasks" "k = t_id t" "remaining ?P t = 0"
        by auto
      with in_ps [OF t(1)] k(2) show False by simp
    qed
    with I2 dps show ?thesis unfolding q by simp
  qed
  have N3: "set (snd (processDependents ds deg queue))
              = {i. \<exists>t \<in> set tasks. i = t_id t \<and> remaining ?P' t = 0 \<and> t_id t \<notin> ?P'}"
  proof (intro set_eqI iffI)
    fix k assume "k \<in> set (snd (processDependents ds deg queue))"
    then consider "k \<in> set queue" | "k \<in> set ps" unfolding q by auto
    then show "k \<in> {i. \<exists>t \<in> set tasks. i = t_id t \<and> remaining ?P' t = 0 \<and> t_id t \<notin> ?P'}"
    proof cases
      case 1
      from queue_ready [OF 1] obtain t where
        t: "t \<in> set tasks" "k = t_id t" "remaining ?P t = 0" "t_id t \<notin> ?P" by auto
      have "k \<noteq> x" using I2 1 by auto
      moreover have "remaining ?P' t = 0" using rem [of t] t(3) by simp
      ultimately show ?thesis using t unfolding P' by auto
    next
      case 2
      with sps sub obtain t where t: "t \<in> set tasks" "k = t_id t" by auto
      with 2 in_ps [OF t(1)] have r: "1 \<le> remaining ?P t" "remaining ?P' t = 0" by auto
      have "t_id t \<notin> ?P" using processed [OF t(1)] r(1) by auto
      moreover have "t_id t \<noteq> x"
      proof
        assume "t_id t = x"
        with id_determines_task [OF ids t(1) tx(1)] tx(2) have "t = tx" by simp
        with rx r(1) show False by simp
      qed
      ultimately show ?thesis using t r unfolding P' by auto
    qed
  next
    fix k assume "k \<in> {i. \<exists>t \<in> set tasks. i = t_id t \<and> remaining ?P' t = 0 \<and> t_id t \<notin> ?P'}"
    then obtain t where t: "t \<in> set tasks" "k = t_id t" "remaining ?P' t = 0" "t_id t \<notin> ?P'"
      by auto
    then have nx: "t_id t \<noteq> x" "t_id t \<notin> ?P" unfolding P' by auto
    show "k \<in> set (snd (processDependents ds deg queue))"
    proof (cases "remaining ?P t = 0")
      case True
      with t nx I3 have "k \<in> set (x # queue)" by auto
      with nx t(2) show ?thesis unfolding q by auto
    next
      case False
      with in_ps [OF t(1)] t(3) have "t_id t \<in> set ps" by simp
      with t(2) show ?thesis unfolding q by simp
    qed
  qed
  have N4: "?P' \<subseteq> t_id ` set tasks" unfolding P' using I4 tx by auto
  have N5: "\<forall>t \<in> set tasks. t_id t \<in> ?P' \<longrightarrow>
              set (t_dependsOn t) \<subseteq> ?P'
            \<and> map_of ?eta (t_id t) = Some (fst (taskETA d sq now ?eta t))"
  proof (intro ballI impI)
    fix t assume t: "t \<in> set tasks" and p: "t_id t \<in> ?P'"
    have deps: "set (t_dependsOn t) \<subseteq> ?P"
    proof (cases "t_id t = x")
      case True
      with id_determines_task [OF ids t tx(1)] tx(2) have "t = tx" by simp
      with depsx show ?thesis by simp
    next
      case False
      with p have "t_id t \<in> ?P" unfolding P' by simp
      with I5 [OF t] show ?thesis by simp
    qed
    have "\<forall>dep \<in> set (t_dependsOn t). etaGet ?eta dep = etaGet eta dep"
    proof
      fix dep assume "dep \<in> set (t_dependsOn t)"
      with deps xP have "dep \<noteq> x" by auto
      then show "etaGet ?eta dep = etaGet eta dep" by (rule etaGet_mapSet)
    qed
    then have same: "taskETA d sq now ?eta t = taskETA d sq now eta t" by (rule taskETA_cong)
    have "map_of ?eta (t_id t) = Some (fst (taskETA d sq now eta t))"
    proof (cases "t_id t = x")
      case True
      with id_determines_task [OF ids t tx(1)] tx(2) have "t = tx" by simp
      with tx(2) show ?thesis by simp
    next
      case False
      with p have "t_id t \<in> ?P" unfolding P' by simp
      with I5 [OF t] False show ?thesis by simp
    qed
    with deps same show "set (t_dependsOn t) \<subseteq> ?P'
            \<and> map_of ?eta (t_id t) = Some (fst (taskETA d sq now ?eta t))"
      unfolding P' by auto
  qed
  from N1 N2 N3 N4 N5 show ?thesis unfolding etaInv_def by blast
qed


text \<open>
  The processed instances are processed after their dependencies: they can be ranked so
  that every dependency of a processed instance has a smaller rank.
\<close>

definition ranked :: "task_instance list \<Rightarrow> (string \<times> number) list \<Rightarrow> bool" where
  "ranked tasks eta \<longleftrightarrow>
     (\<exists>rank :: string \<Rightarrow> nat. \<forall>t \<in> set tasks. t_id t \<in> fst ` set eta \<longrightarrow>
        (\<forall>dep \<in> set (t_dependsOn t). rank dep < rank (t_id t)))"

lemma ranked_step:
  assumes ids: "distinct (map t_id tasks)"
    and inv: "etaInv d sq now tasks (x # queue) deg eta"
    and tx: "tx \<in> set tasks" "t_id tx = x"
    and rk: "ranked tasks eta"
  shows "ranked tasks (mapSet x v eta)"
proof -
  let ?P = "fst ` set eta"
  from inv have I3: "set (x # queue) = {i. \<exists>t \<in> set tasks. i = t_id t \<and> remaining ?P t = 0 \<and> t_id t \<notin> ?P}"
    and I5: "\<And>t. t \<in> set tasks \<Longrightarrow> t_id t \<in> ?P \<Longrightarrow> set (t_dependsOn t) \<subseteq> ?P"
    unfolding etaInv_def by blast+
  have "x \<in> set (x # queue)" by simp
  with I3 obtain t0 where t0: "t0 \<in> set tasks" "x = t_id t0" "remaining ?P t0 = 0" "t_id t0 \<notin> ?P"
    by auto
  have "t0 = tx" using id_determines_task [OF ids t0(1) tx(1)] t0(2) tx(2) by simp
  with t0 have rx: "remaining ?P tx = 0" and xP: "x \<notin> ?P" by auto
  have depsx: "set (t_dependsOn tx) \<subseteq> ?P" using rx by (simp add: remaining_0)
  from rk obtain rank :: "string \<Rightarrow> nat" where
    r: "\<And>t dep. t \<in> set tasks \<Longrightarrow> t_id t \<in> ?P \<Longrightarrow> dep \<in> set (t_dependsOn t)
          \<Longrightarrow> rank dep < rank (t_id t)"
    unfolding ranked_def by blast
  define top where "top = Suc (Max (insert 0 (rank ` ?P)))"
  define rank' where "rank' = rank(x := top)"
  have below: "rank k < top" if "k \<in> ?P" for k
  proof -
    have "rank k \<le> Max (insert 0 (rank ` ?P))" using that by (intro Max_ge) auto
    then show ?thesis by (simp add: top_def)
  qed
  have "rank' dep < rank' (t_id t)"
    if t: "t \<in> set tasks" and p: "t_id t \<in> insert x ?P" and dep: "dep \<in> set (t_dependsOn t)"
    for t dep
  proof (cases "t_id t = x")
    case True
    with id_determines_task [OF ids t tx(1)] tx(2) have "t = tx" by simp
    with dep depsx have dP: "dep \<in> ?P" by auto
    with xP have "dep \<noteq> x" by auto
    with below [OF dP] True show ?thesis by (simp add: rank'_def)
  next
    case False
    with p have tP: "t_id t \<in> ?P" by simp
    from I5 [OF t tP] dep have dP: "dep \<in> ?P" by auto
    with xP have "dep \<noteq> x" by auto
    with False r [OF t tP dep] show ?thesis by (simp add: rank'_def)
  qed
  then have "\<forall>t \<in> set tasks. t_id t \<in> fst ` set (mapSet x v eta) \<longrightarrow>
               (\<forall>dep \<in> set (t_dependsOn t). rank' dep < rank' (t_id t))"
    by simp
  then show ?thesis unfolding ranked_def by blast
qed
subsection \<open>The traversal returns, and keeps the invariant\<close>

lemma taskMapOf_lookup:
  "distinct (map t_id tasks) \<Longrightarrow> t \<in> set tasks \<Longrightarrow> map_of (taskMapOf tasks) (t_id t) = Some t"
proof -
  assume d: "distinct (map t_id tasks)" and t: "t \<in> set tasks"
  have "find (\<lambda>x. t_id x = t_id t) tasks = Some t"
    using d t by (induction tasks) (auto simp: image_iff)
  then show ?thesis
    unfolding taskMapOf_def using map_of_fold_mapSet [OF d, of "\<lambda>t. t" "[]" "t_id t"] by simp
qed

lemma fold_mapSet_entries:
  "set (fold (\<lambda>x m. mapSet (key x) (val x) m) xs m0) \<subseteq> set m0 \<union> (\<lambda>x. (key x, val x)) ` set xs"
proof (induction xs arbitrary: m0)
  case Nil
  then show ?case by simp
next
  case (Cons a xs)
  from Cons.IH [of "mapSet (key a) (val a) m0"] set_mapSet_subset [of "key a" "val a" m0]
  show ?case by auto
qed

lemma taskMapOf_entry:
  assumes "map_of (taskMapOf tasks) k = Some t"
  shows "t_id t = k \<and> t \<in> set tasks"
proof -
  from assms have "(k, t) \<in> set (taskMapOf tasks)" by (rule map_of_SomeD)
  moreover have "set (taskMapOf tasks) \<subseteq> set [] \<union> (\<lambda>x. (t_id x, x)) ` set tasks"
    unfolding taskMapOf_def by (rule fold_mapSet_entries)
  ultimately have "(k, t) \<in> (\<lambda>x. (t_id x, x)) ` set tasks" by auto
  then show ?thesis by auto
qed

lemma taskMapOf_key:
  "map_of (taskMapOf tasks) k = Some t \<Longrightarrow> t_id t = k"
  by (simp add: taskMapOf_entry)

lemma etaLoop_inv:
  assumes ids: "distinct (map t_id tasks)"
    and cnt: "\<And>x t. t \<in> set tasks \<Longrightarrow>
                count_list (dependentsOf adj x) (t_id t) = count_list (t_dependsOn t) x"
    and sub: "\<And>x. set (dependentsOf adj x) \<subseteq> t_id ` set tasks"
    and tm: "\<And>t. t \<in> set tasks \<Longrightarrow> map_of taskMap (t_id t) = Some t"
    and inv: "etaInv d sq now tasks queue deg eta"
    and rk: "ranked tasks eta"
  shows "\<exists>eta' bd' deg'. etaLoop d sq now taskMap adj queue deg eta bd = Some (eta', bd')
                        \<and> etaInv d sq now tasks [] deg' eta' \<and> ranked tasks eta'"
  using cnt sub tm inv rk
proof (induction d sq now taskMap adj queue deg eta bd rule: etaLoop.induct)
  case (1 d sq now taskMap adj deg eta bd)
  from "1.prems"(4) "1.prems"(5) show ?case by auto
next
  case (2 d sq now taskMap adj x queue deg eta bd)
  from "2.prems"(4)
  have eq: "set (x # queue) = {i. \<exists>t \<in> set tasks. i = t_id t \<and> remaining (fst ` set eta) t = 0
                                      \<and> t_id t \<notin> fst ` set eta}"
    by (simp add: etaInv_def)
  have "x \<in> set (x # queue)" by simp
  then have "x \<in> {i. \<exists>t \<in> set tasks. i = t_id t \<and> remaining (fst ` set eta) t = 0
                                      \<and> t_id t \<notin> fst ` set eta}"
    unfolding eq .
  then obtain tx where tx: "tx \<in> set tasks" "t_id tx = x" by blast
  have look: "map_of taskMap x = Some tx" using "2.prems"(3) [OF tx(1)] tx(2) by simp
  let ?r = "taskETA d sq now eta tx"
  let ?g = "processDependents (dependentsOf adj x) deg queue"
  have step: "etaInv d sq now tasks (snd ?g) (fst ?g) (mapSet x (fst ?r) eta)"
    by (rule etaInv_step [OF ids "2.prems"(1) "2.prems"(2) "2.prems"(4) tx])
  have rstep: "ranked tasks (mapSet x (fst ?r) eta)"
    by (rule ranked_step [OF ids "2.prems"(4) tx "2.prems"(5)])
  have "etaLoop d sq now taskMap adj (x # queue) deg eta bd
          = etaLoop d sq now taskMap adj (snd ?g) (fst ?g) (mapSet x (fst ?r) eta)
              (mapSet x (snd ?r) bd)"
    using look by (simp add: Let_def)
  moreover from "2.IH" [OF look refl refl "2.prems"(1) "2.prems"(2) "2.prems"(3) step rstep]
  obtain eta' bd' deg' where
    "etaLoop d sq now taskMap adj (snd ?g) (fst ?g) (mapSet x (fst ?r) eta) (mapSet x (snd ?r) bd)
       = Some (eta', bd')" "etaInv d sq now tasks [] deg' eta'" "ranked tasks eta'"
    by blast
  ultimately show ?case by auto
qed

lemma initGraph_inv:
  assumes ids: "distinct (map t_id tasks)"
  shows "etaInv d sq now tasks (initialQueue (fst (initGraph tasks))) (fst (initGraph tasks)) []"
proof -
  let ?deg = "fst (initGraph tasks)"
  have deg: "?deg = fold (\<lambda>t m. mapSet (t_id t) (int (length (t_dependsOn t))) m) tasks []"
    by (simp add: initGraph_def initGraph_inDegree)
  have look: "map_of ?deg k = (case find (\<lambda>t. t_id t = k) tasks of
                                 None \<Rightarrow> None | Some t \<Rightarrow> Some (int (length (t_dependsOn t))))" for k
    unfolding deg using map_of_fold_mapSet [OF ids, of "\<lambda>t. int (length (t_dependsOn t))" "[]" k]
    by (simp split: option.splits)
  have found: "find (\<lambda>x. t_id x = t_id t) tasks = Some t" if "t \<in> set tasks" for t
    using ids that by (induction tasks) (auto simp: image_iff)
  have dk: "distinct (map fst ?deg)"
  proof -
    have "distinct (map fst m0) \<Longrightarrow>
            distinct (map fst (fold (\<lambda>t m. mapSet (t_id t) (int (length (t_dependsOn t))) m) ts m0))"
      for ts and m0 :: "(string \<times> int) list"
      by (induction ts arbitrary: m0) auto
    from this [of "[]" tasks] show ?thesis unfolding deg by simp
  qed
  have I1: "\<forall>t \<in> set tasks. degreeGet ?deg (t_id t) = int (remaining (fst ` set []) t)"
    using found by (simp add: degreeGet_def look remaining_def)
  have I2: "distinct (initialQueue ?deg)"
    unfolding initialQueue_def using dk by (rule distinct_map_filter)
  have I3: "set (initialQueue ?deg)
              = {i. \<exists>t \<in> set tasks. i = t_id t \<and> remaining (fst ` set []) t = 0
                                    \<and> t_id t \<notin> fst ` set []}"
  proof (intro set_eqI iffI)
    fix k assume "k \<in> set (initialQueue ?deg)"
    then have "(k, 0) \<in> set ?deg" by (auto simp: initialQueue_def)
    with dk have "map_of ?deg k = Some 0" by simp
    then obtain t where "find (\<lambda>t. t_id t = k) tasks = Some t" "length (t_dependsOn t) = 0"
      unfolding look by (auto split: option.splits)
    then have "t \<in> set tasks" "t_id t = k" "remaining {} t = 0"
      by (auto simp: find_Some_iff remaining_def)
    then show "k \<in> {i. \<exists>t \<in> set tasks. i = t_id t \<and> remaining (fst ` set []) t = 0
                                    \<and> t_id t \<notin> fst ` set []}" by auto
  next
    fix k assume "k \<in> {i. \<exists>t \<in> set tasks. i = t_id t \<and> remaining (fst ` set []) t = 0
                                    \<and> t_id t \<notin> fst ` set []}"
    then obtain t where t: "t \<in> set tasks" "k = t_id t" "t_dependsOn t = []"
      by (auto simp: remaining_def)
    then have "map_of ?deg k = Some 0" using found [OF t(1)] by (simp add: look)
    then have "(k, 0) \<in> set ?deg" by (rule map_of_SomeD)
    then show "k \<in> set (initialQueue ?deg)" by (force simp: initialQueue_def)
  qed
  from I1 I2 I3 show ?thesis unfolding etaInv_def by simp
qed

text \<open>What holds of the per-task ETA map when the queue is empty.\<close>

definition etaFinal :: "db \<Rightarrow> (string \<times> station_queue) list \<Rightarrow> int \<Rightarrow> task_instance list
    \<Rightarrow> (string \<times> number) list \<Rightarrow> bool" where
  "etaFinal d sq now tasks eta \<longleftrightarrow> (\<exists>deg. etaInv d sq now tasks [] deg eta) \<and> ranked tasks eta"

lemma traverse_final:
  assumes ids: "distinct (map t_id (orderTasks tenantId orderId d))"
  shows "\<exists>eta bd. traverse tenantId orderId now d = Some (eta, bd)
           \<and> etaFinal d (getStationQueues tenantId d) now (orderTasks tenantId orderId d) eta"
proof -
  let ?tasks = "orderTasks tenantId orderId d"
  let ?g = "initGraph ?tasks"
  have "dependentsOf [] x = []" for x by (simp add: dependentsOf_def)
  then have adj: "dependentsOf (snd ?g) x = concat (map (occ x) ?tasks)" for x
    by (simp add: initGraph_def initGraph_dependentsOf)
  have "\<exists>eta' bd' deg'.
          etaLoop d (getStationQueues tenantId d) now (taskMapOf ?tasks) (snd ?g)
            (initialQueue (fst ?g)) (fst ?g) [] [] = Some (eta', bd')
        \<and> etaInv d (getStationQueues tenantId d) now ?tasks [] deg' eta' \<and> ranked ?tasks eta'"
  proof (rule etaLoop_inv [OF ids])
    fix x t assume "t \<in> set ?tasks"
    then show "count_list (dependentsOf (snd ?g) x) (t_id t) = count_list (t_dependsOn t) x"
      unfolding adj by (rule count_dependents [OF ids])
  next
    fix x show "set (dependentsOf (snd ?g) x) \<subseteq> t_id ` set ?tasks"
      unfolding adj by (rule set_dependents)
  next
    fix t assume "t \<in> set ?tasks"
    then show "map_of (taskMapOf ?tasks) (t_id t) = Some t" by (rule taskMapOf_lookup [OF ids])
  next
    show "etaInv d (getStationQueues tenantId d) now ?tasks (initialQueue (fst ?g)) (fst ?g) []"
      by (rule initGraph_inv [OF ids])
  next
    show "ranked ?tasks []" by (simp add: ranked_def)
  qed
  then show ?thesis by (auto simp: traverse_def Let_def etaFinal_def)
qed

subsection \<open>The breakdown follows the ETA map\<close>

definition plainEntry :: "string \<times> eta_breakdown \<Rightarrow> bool" where
  "plainEntry e = (b_taskId (snd e) = fst e \<and> \<not> b_isCriticalPath (snd e))"

lemma taskETA_breakdown:
  "b_totalMinutes (snd (taskETA d sq now eta t)) = fst (taskETA d sq now eta t)"
  "b_taskId (snd (taskETA d sq now eta t)) = t_id t"
  "\<not> b_isCriticalPath (snd (taskETA d sq now eta t))"
  by (simp_all add: taskETA_def Let_def)

lemma etaLoop_breakdown:
  assumes "etaLoop d sq now taskMap adj queue deg eta bd = Some (eta', bd')"
    and "\<And>k t. map_of taskMap k = Some t \<Longrightarrow> t_id t = k"
    and "map (apsnd b_totalMinutes) bd = eta"
    and "list_all plainEntry bd"
    and "distinct (map fst bd)"
  shows "map (apsnd b_totalMinutes) bd' = eta' \<and> list_all plainEntry bd' \<and> distinct (map fst bd')"
  using assms
proof (induction d sq now taskMap adj queue deg eta bd rule: etaLoop.induct)
  case (1 d sq now taskMap adj deg eta bd)
  then show ?case by simp
next
  case (2 d sq now taskMap adj x queue deg eta bd)
  from "2.prems"(1) obtain tx where look: "map_of taskMap x = Some tx"
    by (auto split: option.splits)
  then have idx: "t_id tx = x" by (rule "2.prems"(2))
  let ?r = "taskETA d sq now eta tx"
  let ?g = "processDependents (dependentsOf adj x) deg queue"
  have run: "etaLoop d sq now taskMap adj (snd ?g) (fst ?g) (mapSet x (fst ?r) eta)
               (mapSet x (snd ?r) bd) = Some (eta', bd')"
    using "2.prems"(1) look by (simp add: Let_def)
  have m: "map (apsnd b_totalMinutes) (mapSet x (snd ?r) bd) = mapSet x (fst ?r) eta"
    using "2.prems"(3) by (simp add: map_apsnd_mapSet taskETA_breakdown)
  have "plainEntry (x, snd ?r)" by (simp add: plainEntry_def taskETA_breakdown idx)
  then have p: "list_all plainEntry (mapSet x (snd ?r) bd)"
    using "2.prems"(4) set_mapSet_subset [of x "snd ?r" bd] by (auto simp: list_all_iff)
  have dk: "distinct (map fst (mapSet x (snd ?r) bd))"
    using "2.prems"(5) by (rule distinct_keys_mapSet)
  from "2.IH" [OF look refl refl run "2.prems"(2) m p dk] show ?case .
qed

lemma traverse_breakdown:
  assumes "traverse tenantId orderId now d = Some (eta, bd)"
  shows "map (apsnd b_totalMinutes) bd = eta \<and> list_all plainEntry bd \<and> distinct (map fst bd)"
  using assms unfolding traverse_def Let_def
  by (rule etaLoop_breakdown) (auto dest: taskMapOf_key)

subsection \<open>The largest ETA\<close>




subsection \<open>Every instance of an acyclic order is processed\<close>

lemma etaFinal_facts:
  assumes "etaFinal d sq now tasks eta"
  shows "fst ` set eta \<subseteq> t_id ` set tasks"
    and "\<And>t. t \<in> set tasks \<Longrightarrow> t_id t \<in> fst ` set eta \<Longrightarrow>
            set (t_dependsOn t) \<subseteq> fst ` set eta
          \<and> map_of eta (t_id t) = Some (fst (taskETA d sq now eta t))"
    and "\<And>t. t \<in> set tasks \<Longrightarrow> t_id t \<notin> fst ` set eta \<Longrightarrow>
            \<not> set (t_dependsOn t) \<subseteq> fst ` set eta"
    and "ranked tasks eta"
proof -
  from assms obtain deg where inv: "etaInv d sq now tasks [] deg eta"
    unfolding etaFinal_def by blast
  from assms show "ranked tasks eta" unfolding etaFinal_def by blast
  from inv show "fst ` set eta \<subseteq> t_id ` set tasks" by (simp add: etaInv_def)
  from inv have I5: "\<forall>t \<in> set tasks. t_id t \<in> fst ` set eta \<longrightarrow>
          set (t_dependsOn t) \<subseteq> fst ` set eta
        \<and> map_of eta (t_id t) = Some (fst (taskETA d sq now eta t))"
    by (simp add: etaInv_def)
  then show "\<And>t. t \<in> set tasks \<Longrightarrow> t_id t \<in> fst ` set eta \<Longrightarrow>
            set (t_dependsOn t) \<subseteq> fst ` set eta
          \<and> map_of eta (t_id t) = Some (fst (taskETA d sq now eta t))" by blast
  from inv have I3: "set [] = {i. \<exists>t \<in> set tasks. i = t_id t \<and> remaining (fst ` set eta) t = 0
                                    \<and> t_id t \<notin> fst ` set eta}"
    by (simp add: etaInv_def)
  show "\<not> set (t_dependsOn t) \<subseteq> fst ` set eta"
    if t: "t \<in> set tasks" "t_id t \<notin> fst ` set eta" for t
  proof
    assume "set (t_dependsOn t) \<subseteq> fst ` set eta"
    then have "remaining (fst ` set eta) t = 0" by (simp add: remaining_0)
    with t have "t_id t \<in> {i. \<exists>t \<in> set tasks. i = t_id t \<and> remaining (fst ` set eta) t = 0
                                    \<and> t_id t \<notin> fst ` set eta}" by blast
    then have "t_id t \<in> set []" unfolding I3 [symmetric] .
    then show False by simp
  qed
qed


subsection \<open>The queue of a station\<close>



subsection \<open>The order ETA\<close>

lemma etaGet_entry:
  "distinct (map fst eta) \<Longrightarrow> (k, v) \<in> set eta \<Longrightarrow> etaGet eta k = v"
  by (simp add: etaGet_def)

lemma calculateOrderETA_nonempty:
  assumes tr: "traverse tenantId orderId now d = Some (eta, bd)"
    and ne: "orderTasks tenantId orderId d \<noteq> []"
  shows "calculateOrderETA tenantId orderId now d =
           (case newDate (fadd (ofInt now) (fmul (fst (criticalTask eta)) (Fin 60000))) of
              None \<Rightarrow> None
            | Some estimatedReadyAt \<Rightarrow>
                Some (\<lparr>eta_orderId = orderId, eta_estimatedReadyAt = estimatedReadyAt,
                       eta_totalMinutes = mathRound (fst (criticalTask eta)),
                       eta_breakdown = map snd (markCritical (snd (criticalTask eta)) bd),
                       eta_confidence = confidenceOf (orderTasks tenantId orderId d)\<rparr>,
                      d\<lparr>orders := map (\<lambda>r. if o_id r = orderId
                                            then r\<lparr>o_estimatedReadyAt := Some estimatedReadyAt\<rparr>
                                            else r) (orders d)\<rparr>))"
  using tr ne by (simp add: calculateOrderETA_def Let_def)

lemma calculateOrderETA_result:
  assumes tr: "traverse tenantId orderId now d = Some (eta, bd)"
    and ne: "orderTasks tenantId orderId d \<noteq> []"
    and calc: "calculateOrderETA tenantId orderId now d = Some (r, d')"
  shows "eta_totalMinutes r = mathRound (fst (criticalTask eta))"
    and "Some (eta_estimatedReadyAt r)
           = newDate (fadd (ofInt now) (fmul (fst (criticalTask eta)) (Fin 60000)))"
    and "eta_breakdown r = map snd (markCritical (snd (criticalTask eta)) bd)"
    and "eta_confidence r = confidenceOf (orderTasks tenantId orderId d)"
  using calc unfolding calculateOrderETA_nonempty [OF tr ne]
  by (auto split: option.splits)

lemma calculateOrderETA_empty:
  assumes "orderTasks tenantId orderId d = []"
  shows "calculateOrderETA tenantId orderId now d =
           Some (\<lparr>eta_orderId = orderId, eta_estimatedReadyAt = now, eta_totalMinutes = Fin 0,
                  eta_breakdown = [], eta_confidence = Low\<rparr>, d)"
  using assms by (simp add: calculateOrderETA_def)









section \<open>The critical-path flag\<close>

text \<open>
  The scan for the critical task keeps the first entry of the map that is strictly larger
  than everything before it and at least as large as everything after it, or keeps its
  starting value when no entry is larger than that.
\<close>

lemma critical_split:
  "m \<noteq> NaN \<Longrightarrow>
   (list_all (\<lambda>y. snd y \<le> m) xs \<and> fold criticalStep xs (m, k) = (m, k))
   \<or> (\<exists>pre x post. xs = pre @ x # post \<and> m < snd x
         \<and> list_all (\<lambda>y. snd y < snd x) pre \<and> list_all (\<lambda>y. snd y \<le> snd x) post
         \<and> fold criticalStep xs (m, k) = (snd x, fst x))"
proof (induction xs arbitrary: m k)
  case Nil
  then show ?case by simp
next
  case (Cons a xs)
  have gt: "jsGt (snd a) m \<longleftrightarrow> m < snd a" using Cons.prems by (rule jsGt_less)
  show ?case
  proof (cases "snd a > m")
    case True
    then have step: "fold criticalStep (a # xs) (m, k) = fold criticalStep xs (snd a, fst a)"
      by (simp add: criticalStep_def gt)
    from True have nn: "snd a \<noteq> NaN" using gt jsGt_not_NaN by blast
    from Cons.IH [OF nn, of "fst a"] show ?thesis
    proof
      assume h: "list_all (\<lambda>y. snd y \<le> snd a) xs
                 \<and> fold criticalStep xs (snd a, fst a) = (snd a, fst a)"
      have "a # xs = [] @ a # xs \<and> m < snd a
            \<and> list_all (\<lambda>y. snd y < snd a) [] \<and> list_all (\<lambda>y. snd y \<le> snd a) xs
            \<and> fold criticalStep (a # xs) (m, k) = (snd a, fst a)"
        using h True step by simp
      then show ?thesis by blast
    next
      assume "\<exists>pre x post. xs = pre @ x # post \<and> snd a < snd x
         \<and> list_all (\<lambda>y. snd y < snd x) pre \<and> list_all (\<lambda>y. snd y \<le> snd x) post
         \<and> fold criticalStep xs (snd a, fst a) = (snd x, fst x)"
      then obtain pre x post where h: "xs = pre @ x # post" "snd a < snd x"
          "list_all (\<lambda>y. snd y < snd x) pre" "list_all (\<lambda>y. snd y \<le> snd x) post"
          "fold criticalStep xs (snd a, fst a) = (snd x, fst x)"
        by blast
      have "a # xs = (a # pre) @ x # post \<and> m < snd x
            \<and> list_all (\<lambda>y. snd y < snd x) (a # pre) \<and> list_all (\<lambda>y. snd y \<le> snd x) post
            \<and> fold criticalStep (a # xs) (m, k) = (snd x, fst x)"
        using h True step by simp
      then show ?thesis by blast
    qed
  next
    case False
    then have step: "fold criticalStep (a # xs) (m, k) = fold criticalStep xs (m, k)"
      by (simp add: criticalStep_def gt)
    from Cons.IH [OF Cons.prems, of k] show ?thesis
    proof
      assume "list_all (\<lambda>y. snd y \<le> m) xs \<and> fold criticalStep xs (m, k) = (m, k)"
      then have "list_all (\<lambda>y. snd y \<le> m) (a # xs)
                 \<and> fold criticalStep (a # xs) (m, k) = (m, k)"
        using False step by simp
      then show ?thesis by blast
    next
      assume "\<exists>pre x post. xs = pre @ x # post \<and> m < snd x
         \<and> list_all (\<lambda>y. snd y < snd x) pre \<and> list_all (\<lambda>y. snd y \<le> snd x) post
         \<and> fold criticalStep xs (m, k) = (snd x, fst x)"
      then obtain pre x post where h: "xs = pre @ x # post" "m < snd x"
          "list_all (\<lambda>y. snd y < snd x) pre" "list_all (\<lambda>y. snd y \<le> snd x) post"
          "fold criticalStep xs (m, k) = (snd x, fst x)"
        by blast
      have "a # xs = (a # pre) @ x # post \<and> m < snd x
            \<and> list_all (\<lambda>y. snd y < snd x) (a # pre) \<and> list_all (\<lambda>y. snd y \<le> snd x) post
            \<and> fold criticalStep (a # xs) (m, k) = (snd x, fst x)"
        using h False step by simp
      then show ?thesis by blast
    qed
  qed
qed

lemma mapSet_middle:
  "k \<notin> fst ` set pre \<Longrightarrow> mapSet k v (pre @ (k, w) # post) = pre @ (k, v) # post"
  by (induction pre) auto

lemma map_of_middle:
  "k \<notin> fst ` set pre \<Longrightarrow> map_of (pre @ (k, w) # post) k = Some w"
  by (induction pre) auto

lemma markCritical_middle:
  assumes "k \<noteq> []" and "k \<notin> fst ` set pre"
  shows "markCritical k (pre @ (k, w) # post) = pre @ (k, w\<lparr>b_isCriticalPath := True\<rparr>) # post"
proof -
  have m: "map_of (pre @ (k, w) # post) k = Some w"
    using assms(2) by (rule map_of_middle)
  show ?thesis
    unfolding markCritical_def m using assms by (simp add: mapSet_middle)
qed

lemma plain_totals:
  assumes "list_all plainEntry bd" and "list_all (\<lambda>y. P (snd y)) (map (apsnd b_totalMinutes) bd)"
  shows "list_all (\<lambda>b. \<not> b_isCriticalPath b \<and> P (b_totalMinutes b)) (map snd bd)"
  using assms by (induction bd) (auto simp add: plainEntry_def)

text \<open>The breakdown of a non-empty order, from the two maps of the traversal.\<close>

lemma breakdown_flag:
  assumes bd: "map (apsnd b_totalMinutes) bd = eta" "list_all plainEntry bd"
      "distinct (map fst bd)"
    and keys: "[] \<notin> fst ` set eta"
  shows "list_all (\<lambda>b. \<not> b_isCriticalPath b \<and> b_totalMinutes b \<le> 0)
           (map snd (markCritical (snd (criticalTask eta)) bd))
       \<or> (\<exists>pre b post. map snd (markCritical (snd (criticalTask eta)) bd) = pre @ b # post
             \<and> b_isCriticalPath b \<and> 0 < b_totalMinutes b
             \<and> b_totalMinutes b = fst (criticalTask eta)
             \<and> list_all (\<lambda>x. \<not> b_isCriticalPath x \<and> b_totalMinutes x < b_totalMinutes b) pre
             \<and> list_all (\<lambda>x. \<not> b_isCriticalPath x \<and> b_totalMinutes x \<le> b_totalMinutes b) post)"
proof -
  have z: "Fin 0 = 0" by (simp add: zero_number_def)
  from critical_split [of 0 eta "[]"] have
    "(list_all (\<lambda>y. snd y \<le> 0) eta \<and> fold criticalStep eta (0, []) = (0, []))
     \<or> (\<exists>pre x post. eta = pre @ x # post \<and> 0 < snd x
           \<and> list_all (\<lambda>y. snd y < snd x) pre \<and> list_all (\<lambda>y. snd y \<le> snd x) post
           \<and> fold criticalStep eta (0, []) = (snd x, fst x))"
    by simp
  then show ?thesis
  proof
    assume h: "list_all (\<lambda>y. snd y \<le> 0) eta \<and> fold criticalStep eta (0, []) = (0, [])"
    then have "markCritical (snd (criticalTask eta)) bd = bd"
      by (simp add: criticalTask_def markCritical_def z)
    moreover have "list_all (\<lambda>b. \<not> b_isCriticalPath b \<and> b_totalMinutes b \<le> 0) (map snd bd)"
      using bd(2) h unfolding bd(1) [symmetric] by (intro plain_totals) simp_all
    ultimately show ?thesis by simp
  next
    assume "\<exists>pre x post. eta = pre @ x # post \<and> 0 < snd x
         \<and> list_all (\<lambda>y. snd y < snd x) pre \<and> list_all (\<lambda>y. snd y \<le> snd x) post
         \<and> fold criticalStep eta (0, []) = (snd x, fst x)"
    then obtain pre x post where h: "eta = pre @ x # post" "0 < snd x"
        "list_all (\<lambda>y. snd y < snd x) pre" "list_all (\<lambda>y. snd y \<le> snd x) post"
        "fold criticalStep eta (0, []) = (snd x, fst x)"
      by blast
    from bd(1) h(1) obtain bpre bx bpost where s: "bd = bpre @ bx # bpost"
        "map (apsnd b_totalMinutes) bpre = pre" "apsnd b_totalMinutes bx = x"
        "map (apsnd b_totalMinutes) bpost = post"
      by (auto simp add: map_eq_append_conv map_eq_Cons_conv)
    obtain k w where bx: "bx = (k, w)" by (cases bx)
    from s(3) bx have x: "x = (k, b_totalMinutes w)" by auto
    from keys h(1) x have k: "k \<noteq> []" by force
    from bd(3) s(1) bx have nk: "k \<notin> fst ` set bpre" by auto
    from bd(2) s(1) have pl: "list_all plainEntry bpre" "list_all plainEntry bpost"
      by simp_all
    have crit: "criticalTask eta = (b_totalMinutes w, k)"
      using h(5) x by (simp add: criticalTask_def z)
    have mk: "map snd (markCritical (snd (criticalTask eta)) bd)
                = map snd bpre @ w\<lparr>b_isCriticalPath := True\<rparr> # map snd bpost"
      using markCritical_middle [OF k nk, of w bpost] by (simp add: crit s(1) bx)
    have p1: "list_all (\<lambda>b. \<not> b_isCriticalPath b \<and> b_totalMinutes b < b_totalMinutes w)
                (map snd bpre)"
      using pl(1) h(3) unfolding s(2) [symmetric] x by (intro plain_totals) simp_all
    have p2: "list_all (\<lambda>b. \<not> b_isCriticalPath b \<and> b_totalMinutes b \<le> b_totalMinutes w)
                (map snd bpost)"
      using pl(2) h(4) unfolding s(4) [symmetric] x by (intro plain_totals) simp_all
    have "map snd (markCritical (snd (criticalTask eta)) bd)
            = map snd bpre @ w\<lparr>b_isCriticalPath := True\<rparr> # map snd bpost
        \<and> b_isCriticalPath (w\<lparr>b_isCriticalPath := True\<rparr>)
        \<and> 0 < b_totalMinutes (w\<lparr>b_isCriticalPath := True\<rparr>)
        \<and> b_totalMinutes (w\<lparr>b_isCriticalPath := True\<rparr>) = fst (criticalTask eta)
        \<and> list_all (\<lambda>x. \<not> b_isCriticalPath x
              \<and> b_totalMinutes x < b_totalMinutes (w\<lparr>b_isCriticalPath := True\<rparr>)) (map snd bpre)
        \<and> list_all (\<lambda>x. \<not> b_isCriticalPath x
              \<and> b_totalMinutes x \<le> b_totalMinutes (w\<lparr>b_isCriticalPath := True\<rparr>)) (map snd bpost)"
      using mk p1 p2 h(2) x crit by simp
    then show ?thesis by blast
  qed
qed

text \<open>
  Claim C10. The breakdown returned by \<open>calculateOrderETA\<close>, read in the iteration order of
  the map, is of one of two shapes. Either no entry is flagged, and then no entry has a
  positive ETA (the maximum remaining time is 0). Or exactly one entry is flagged: its ETA
  is positive, every entry before it has a strictly smaller ETA and every entry after it
  an ETA that is at most as large, so among entries that tie for the maximum only the
  first is flagged. Instance identifiers are distinct and non-empty, as the keys of the
  table are.
\<close>

theorem critical_flag_first_maximum:
  assumes ids: "distinct (map t_id (orderTasks tenantId orderId d))"
    and nonempty: "\<forall>t \<in> set (orderTasks tenantId orderId d). t_id t \<noteq> []"
    and calc: "calculateOrderETA tenantId orderId now d = Some (r, d')"
  shows "list_all (\<lambda>b. \<not> b_isCriticalPath b \<and> b_totalMinutes b \<le> 0) (eta_breakdown r)
       \<or> (\<exists>pre b post. eta_breakdown r = pre @ b # post
             \<and> b_isCriticalPath b \<and> 0 < b_totalMinutes b
             \<and> eta_totalMinutes r = mathRound (b_totalMinutes b)
             \<and> list_all (\<lambda>x. \<not> b_isCriticalPath x \<and> b_totalMinutes x < b_totalMinutes b) pre
             \<and> list_all (\<lambda>x. \<not> b_isCriticalPath x \<and> b_totalMinutes x \<le> b_totalMinutes b) post)"
proof (cases "orderTasks tenantId orderId d = []")
  case True
  from calc calculateOrderETA_empty [OF True, of now] have "eta_breakdown r = []" by auto
  then show ?thesis by simp
next
  case False
  from traverse_final [OF ids, of now] obtain eta bd where
      tr: "traverse tenantId orderId now d = Some (eta, bd)"
      and fin: "etaFinal d (getStationQueues tenantId d) now (orderTasks tenantId orderId d) eta"
    by blast
  have r: "eta_breakdown r = map snd (markCritical (snd (criticalTask eta)) bd)"
      "eta_totalMinutes r = mathRound (fst (criticalTask eta))"
    by (rule calculateOrderETA_result(3) [OF tr False calc])
       (rule calculateOrderETA_result(1) [OF tr False calc])
  from etaFinal_facts(1) [OF fin] nonempty have keys: "[] \<notin> fst ` set eta" by force
  from traverse_breakdown [OF tr] have bd: "map (apsnd b_totalMinutes) bd = eta"
      "list_all plainEntry bd" "distinct (map fst bd)"
    by simp_all
  from breakdown_flag [OF bd keys] show ?thesis unfolding r
  proof
    assume "list_all (\<lambda>b. \<not> b_isCriticalPath b \<and> b_totalMinutes b \<le> 0)
              (map snd (markCritical (snd (criticalTask eta)) bd))"
    then show "list_all (\<lambda>b. \<not> b_isCriticalPath b \<and> b_totalMinutes b \<le> 0)
              (map snd (markCritical (snd (criticalTask eta)) bd))
       \<or> (\<exists>pre b post. map snd (markCritical (snd (criticalTask eta)) bd) = pre @ b # post
             \<and> b_isCriticalPath b \<and> 0 < b_totalMinutes b
             \<and> mathRound (fst (criticalTask eta)) = mathRound (b_totalMinutes b)
             \<and> list_all (\<lambda>x. \<not> b_isCriticalPath x \<and> b_totalMinutes x < b_totalMinutes b) pre
             \<and> list_all (\<lambda>x. \<not> b_isCriticalPath x \<and> b_totalMinutes x \<le> b_totalMinutes b) post)"
      by (rule disjI1)
  next
    assume "\<exists>pre b post. map snd (markCritical (snd (criticalTask eta)) bd) = pre @ b # post
             \<and> b_isCriticalPath b \<and> 0 < b_totalMinutes b
             \<and> b_totalMinutes b = fst (criticalTask eta)
             \<and> list_all (\<lambda>x. \<not> b_isCriticalPath x \<and> b_totalMinutes x < b_totalMinutes b) pre
             \<and> list_all (\<lambda>x. \<not> b_isCriticalPath x \<and> b_totalMinutes x \<le> b_totalMinutes b) post"
    then obtain pre b post where
        h: "map snd (markCritical (snd (criticalTask eta)) bd) = pre @ b # post"
          "b_isCriticalPath b" "0 < b_totalMinutes b" "b_totalMinutes b = fst (criticalTask eta)"
          "list_all (\<lambda>x. \<not> b_isCriticalPath x \<and> b_totalMinutes x < b_totalMinutes b) pre"
          "list_all (\<lambda>x. \<not> b_isCriticalPath x \<and> b_totalMinutes x \<le> b_totalMinutes b) post"
      by blast
    have "map snd (markCritical (snd (criticalTask eta)) bd) = pre @ b # post
             \<and> b_isCriticalPath b \<and> 0 < b_totalMinutes b
             \<and> mathRound (fst (criticalTask eta)) = mathRound (b_totalMinutes b)
             \<and> list_all (\<lambda>x. \<not> b_isCriticalPath x \<and> b_totalMinutes x < b_totalMinutes b) pre
             \<and> list_all (\<lambda>x. \<not> b_isCriticalPath x \<and> b_totalMinutes x \<le> b_totalMinutes b) post"
      using h by simp
    then show "list_all (\<lambda>b. \<not> b_isCriticalPath b \<and> b_totalMinutes b \<le> 0)
              (map snd (markCritical (snd (criticalTask eta)) bd))
       \<or> (\<exists>pre b post. map snd (markCritical (snd (criticalTask eta)) bd) = pre @ b # post
             \<and> b_isCriticalPath b \<and> 0 < b_totalMinutes b
             \<and> mathRound (fst (criticalTask eta)) = mathRound (b_totalMinutes b)
             \<and> list_all (\<lambda>x. \<not> b_isCriticalPath x \<and> b_totalMinutes x < b_totalMinutes b) pre
             \<and> list_all (\<lambda>x. \<not> b_isCriticalPath x \<and> b_totalMinutes x \<le> b_totalMinutes b) post)"
      by blast
  qed
qed

text \<open>
  Two instances tie at 5 minutes: \<open>a\<close>, first in the iteration order of the map, is the
  one flagged. When every instance is done, none is.
\<close>

definition tieDb :: db where
  "tieDb = mkDb [mkTimed ''a'' Queued [] 5, mkTimed ''b'' Queued [] 5, mkTimed ''c'' Queued [] 3]"

text \<open>
  In doubles 1.1 + 2.2 is 3.3000000000000003, which is more than 3.3: \<open>c\<close> (2.2 minutes
  after the 1.1 minutes of \<open>b\<close>) is flagged, and not \<open>a\<close> (3.3 minutes).
\<close>

definition nearTieDb :: db where
  "nearTieDb = mkDb [mkTimed ''a'' Queued [] (33 / 10), mkTimed ''b'' Queued [] (11 / 10),
                     mkTimed ''c'' Pending [''b''] (22 / 10)]"

definition allDoneDb :: db where
  "allDoneDb = mkDb [mkTimed ''a'' Done [] 5, mkTimed ''b'' Done [''a''] 3]"

definition flags :: "(order_eta \<times> db) option \<Rightarrow> (string \<times> number \<times> bool) list" where
  "flags res = (case res of None \<Rightarrow> []
                | Some p \<Rightarrow> map (\<lambda>b. (b_taskId b, b_totalMinutes b, b_isCriticalPath b))
                              (eta_breakdown (fst p)))"

theorem critical_flag_first_maximum_witness:
  "distinct (map t_id (orderTasks ''t1'' ''o1'' tieDb))
   \<and> list_all (\<lambda>t. t_id t \<noteq> []) (orderTasks ''t1'' ''o1'' tieDb)
   \<and> calculateOrderETA ''t1'' ''o1'' 0 tieDb \<noteq> None
   \<and> flags (calculateOrderETA ''t1'' ''o1'' 0 tieDb)
       = [(''a'', Fin 5, True), (''b'', Fin 5, False), (''c'', Fin 3, False)]
   \<and> flags (calculateOrderETA ''t1'' ''o1'' 0 allDoneDb)
       = [(''a'', Fin 0, False), (''b'', Fin 0, False)]
   \<and> flags (calculateOrderETA ''t1'' ''o1'' 0 abcDb)
       = [(''a'', Fin 5, False), (''c'', Fin 4, False), (''b'', Fin 8, True)]
   \<and> flags (calculateOrderETA ''t1'' ''o1'' 0 nearTieDb)
       = [(''a'', Fin (3715469692580659 / 1125899906842624), False),
          (''b'', Fin (2476979795053773 / 2251799813685248), False),
          (''c'', Fin (7430939385161319 / 2251799813685248), True)]
   \<and> (list_all (\<lambda>b. \<not> b_isCriticalPath b \<and> b_totalMinutes b \<le> 0)
         (eta_breakdown (fst (the (calculateOrderETA ''t1'' ''o1'' 0 tieDb))))
       \<or> (\<exists>pre b post.
             eta_breakdown (fst (the (calculateOrderETA ''t1'' ''o1'' 0 tieDb))) = pre @ b # post
             \<and> b_isCriticalPath b \<and> 0 < b_totalMinutes b
             \<and> eta_totalMinutes (fst (the (calculateOrderETA ''t1'' ''o1'' 0 tieDb)))
                 = mathRound (b_totalMinutes b)
             \<and> list_all (\<lambda>x. \<not> b_isCriticalPath x \<and> b_totalMinutes x < b_totalMinutes b) pre
             \<and> list_all (\<lambda>x. \<not> b_isCriticalPath x \<and> b_totalMinutes x \<le> b_totalMinutes b) post))"
proof -
  have h1: "distinct (map t_id (orderTasks ''t1'' ''o1'' tieDb))"
    by code_simp
  have l2: "list_all (\<lambda>t. t_id t \<noteq> []) (orderTasks ''t1'' ''o1'' tieDb)"
    by code_simp
  then have h2: "\<forall>t \<in> set (orderTasks ''t1'' ''o1'' tieDb). t_id t \<noteq> []"
    by (simp only: list_all_iff)
  have ne: "calculateOrderETA ''t1'' ''o1'' 0 tieDb \<noteq> None"
    by code_simp
  then have h3: "calculateOrderETA ''t1'' ''o1'' 0 tieDb
                   = Some (fst (the (calculateOrderETA ''t1'' ''o1'' 0 tieDb)),
                           snd (the (calculateOrderETA ''t1'' ''o1'' 0 tieDb)))"
    by simp
  have e1: "flags (calculateOrderETA ''t1'' ''o1'' 0 tieDb)
              = [(''a'', Fin 5, True), (''b'', Fin 5, False), (''c'', Fin 3, False)]"
    by code_simp
  have e2: "flags (calculateOrderETA ''t1'' ''o1'' 0 allDoneDb)
              = [(''a'', Fin 0, False), (''b'', Fin 0, False)]"
    by code_simp
  have e3: "flags (calculateOrderETA ''t1'' ''o1'' 0 abcDb)
              = [(''a'', Fin 5, False), (''c'', Fin 4, False), (''b'', Fin 8, True)]"
    by code_simp
  have e4: "flags (calculateOrderETA ''t1'' ''o1'' 0 nearTieDb)
              = [(''a'', Fin (3715469692580659 / 1125899906842624), False),
                 (''b'', Fin (2476979795053773 / 2251799813685248), False),
                 (''c'', Fin (7430939385161319 / 2251799813685248), True)]"
    by code_simp
  from h1 l2 ne e1 e2 e3 e4 critical_flag_first_maximum [OF h1 h2 h3]
  show ?thesis by (intro conjI)
qed

section \<open>The confidence of an order ETA\<close>

text \<open>
  Modelled from the spec: the duration of an instance is sample-backed when the rolling
  window of its task definition holds enough samples, so that the estimate is the average
  of the samples and not the static estimate of the definition. The window is the one
  \<open>getHistoricalDurations\<close> reads for the workflow template of the order item.
\<close>

definition sampleBacked :: "int \<Rightarrow> db \<Rightarrow> task_instance \<Rightarrow> bool" where
  "sampleBacked now d t =
     (case find (\<lambda>i. oi_id i = t_orderItemId t) (orderItems d) of
        None \<Rightarrow> False
      | Some orderItem \<Rightarrow>
          (case oi_workflowTemplateId orderItem of
             None \<Rightarrow> False
           | Some wt \<Rightarrow>
               map_of (getHistoricalDurations (t_tenantId t) wt now d) (t_taskDefId t) \<noteq> None))"

text \<open>
  Modelled from the spec: confidence is low if the order has fewer than 3 instances, high
  if every instance has a sample-backed duration, else medium.
\<close>

definition spec_confidence :: "int \<Rightarrow> db \<Rightarrow> task_instance list \<Rightarrow> confidence" where
  "spec_confidence now d tasks =
     (if length tasks < 3 then Low
      else if list_all (sampleBacked now d) tasks then High else Medium)"

text \<open>The test of the code: some instance has an estimate that is positive as a number.\<close>

lemma hasHistorical_iff:
  "hasHistorical tasks \<longleftrightarrow>
     (\<exists>t \<in> set tasks. \<exists>m. t_estimatedMinutes t = Some m \<and> Fin 0 < roundDouble m)"
  by (auto simp add: hasHistorical_def list_ex_iff ofDecimal_def jsGt_less split: option.splits)

text \<open>
  Claim C6. What the code returns: the confidence is low for fewer than 3 instances, and
  otherwise high as soon as one instance has a positive estimate, and medium when none
  has. The test does not look at the duration samples: an estimate copied from the
  workflow definition counts like an average of samples, so that an order of three or
  more instances made from a template with estimates is rated high in a kitchen that
  has recorded no duration at all.
\<close>

theorem confidence_high_iff_some_positive_estimate:
  assumes calc: "calculateOrderETA tenantId orderId now d = Some (r, d')"
  shows "eta_confidence r =
           (if length (orderTasks tenantId orderId d) < 3 then Low
            else if (\<exists>t \<in> set (orderTasks tenantId orderId d).
                       \<exists>m. t_estimatedMinutes t = Some m \<and> Fin 0 < roundDouble m) then High
            else Medium)"
proof (cases "orderTasks tenantId orderId d = []")
  case True
  from calc calculateOrderETA_empty [OF True, of now] True show ?thesis by auto
next
  case False
  from calc obtain eta bd where tr: "traverse tenantId orderId now d = Some (eta, bd)"
    using False by (auto simp add: calculateOrderETA_def Let_def split: option.splits)
  have "eta_confidence r = confidenceOf (orderTasks tenantId orderId d)"
    by (rule calculateOrderETA_result(4) [OF tr False calc])
  then show ?thesis unfolding confidenceOf_def hasHistorical_iff .
qed

text \<open>
  An order instantiated from a template of three tasks, in a kitchen that has recorded no
  duration yet: every estimate is the static one of the definition, no instance is
  sample-backed, and the confidence is high.
\<close>

definition pizzaDb :: db where
  "pizzaDb =
     (mkDb [])\<lparr>workflowTemplates :=
       [\<lparr>wt_id = ''w1'',
         wt_phases = [\<lparr>pd_id = ''p1'', pd_name = ''prep'', pd_order = 1,
                       pd_tasks = [mkTaskDef ''dough'' 5 [], mkTaskDef ''top'' 3 [''dough''],
                                   mkTaskDef ''box'' 4 []]\<rparr>]\<rparr>]\<rparr>"

definition instantiated :: db where
  "instantiated =
     (case instantiateWorkflow uuidEx 0 ''t1'' ''o1'' ''i1'' ''w1'' 0 pizzaDb of
        Inl e \<Rightarrow> pizzaDb
      | Inr res \<Rightarrow> snd res)"

definition instantiatedETA :: order_eta where
  "instantiatedETA = fst (the (calculateOrderETA ''t1'' ''o1'' 0 instantiated))"

theorem confidence_high_iff_some_positive_estimate_witness:
  "map (\<lambda>t. (t_id t, t_status t, t_dependsOn t, t_estimatedMinutes t))
       (orderTasks ''t1'' ''o1'' instantiated)
     = [(''u'', Queued, [], Some 5), (''uu'', Pending, [''u''], Some 3),
        (''uuu'', Queued, [], Some 4)]
   \<and> taskDurations instantiated = []
   \<and> list_all (\<lambda>t. \<not> sampleBacked 0 instantiated t) (orderTasks ''t1'' ''o1'' instantiated)
   \<and> spec_confidence 0 instantiated (orderTasks ''t1'' ''o1'' instantiated) = Medium
   \<and> calculateOrderETA ''t1'' ''o1'' 0 instantiated \<noteq> None
   \<and> eta_confidence instantiatedETA = High
   \<and> eta_confidence instantiatedETA =
       (if length (orderTasks ''t1'' ''o1'' instantiated) < 3 then Low
        else if (\<exists>t \<in> set (orderTasks ''t1'' ''o1'' instantiated).
                   \<exists>m. t_estimatedMinutes t = Some m \<and> Fin 0 < roundDouble m) then High
        else Medium)"
proof -
  have e1: "map (\<lambda>t. (t_id t, t_status t, t_dependsOn t, t_estimatedMinutes t))
       (orderTasks ''t1'' ''o1'' instantiated)
     = [(''u'', Queued, [], Some 5), (''uu'', Pending, [''u''], Some 3),
        (''uuu'', Queued, [], Some 4)]"
    by code_simp
  have e2: "taskDurations instantiated = []"
    by code_simp
  have e3: "list_all (\<lambda>t. \<not> sampleBacked 0 instantiated t) (orderTasks ''t1'' ''o1'' instantiated)"
    by code_simp
  have e4: "spec_confidence 0 instantiated (orderTasks ''t1'' ''o1'' instantiated) = Medium"
    by code_simp
  have ne: "calculateOrderETA ''t1'' ''o1'' 0 instantiated \<noteq> None"
    by code_simp
  then have h: "calculateOrderETA ''t1'' ''o1'' 0 instantiated
                  = Some (instantiatedETA, snd (the (calculateOrderETA ''t1'' ''o1'' 0 instantiated)))"
    by (simp add: instantiatedETA_def)
  have e5: "eta_confidence instantiatedETA = High"
    by code_simp
  from e1 e2 e3 e4 ne e5 confidence_high_iff_some_positive_estimate [OF h]
  show ?thesis by (intro conjI)
qed

section \<open>The pre-commitment estimate\<close>



subsection \<open>What the estimate computes\<close>










section \<open>The event queue and the push loop\<close>

subsection \<open>Frame lemmas: what the transport and the pulls leave alone\<close>

lemma fetch_frame [simp]:
  "c_syncEvents (snd (fetch c)) = c_syncEvents c"
  "c_posted (snd (fetch c)) = c_posted c"
  "c_isSyncing (snd (fetch c)) = c_isSyncing c"
  by (auto simp: fetch_def split: list.splits)

lemma pullOrder_frame [simp]:
  "c_syncEvents (pullOrder ord c) = c_syncEvents c"
  "c_posted (pullOrder ord c) = c_posted c"
  by (auto simp: pullOrder_def storeOrder_def split: option.splits)

lemma pullTask_frame [simp]:
  "c_syncEvents (pullTask t c) = c_syncEvents c"
  "c_posted (pullTask t c) = c_posted c"
  by (auto simp: pullTask_def storeTask_def split: option.splits)

lemma pullDelivery_frame [simp]:
  "c_syncEvents (pullDelivery dl c) = c_syncEvents c"
  "c_posted (pullDelivery dl c) = c_posted c"
  by (auto simp: pullDelivery_def storeDelivery_def split: option.splits)

lemma fold_pullOrder_frame [simp]:
  "c_syncEvents (fold pullOrder os c) = c_syncEvents c"
  "c_posted (fold pullOrder os c) = c_posted c"
  by (induction os arbitrary: c) auto

lemma fold_pullTask_frame [simp]:
  "c_syncEvents (fold pullTask ts c) = c_syncEvents c"
  "c_posted (fold pullTask ts c) = c_posted c"
  by (induction ts arbitrary: c) auto

lemma fold_pullDelivery_frame [simp]:
  "c_syncEvents (fold pullDelivery ds c) = c_syncEvents c"
  "c_posted (fold pullDelivery ds c) = c_posted c"
  by (induction ds arbitrary: c) auto

lemma pullActive_frame [simp]:
  "c_syncEvents (pullActiveOrders c) = c_syncEvents c"
  "c_posted (pullActiveOrders c) = c_posted c"
  "c_syncEvents (pullActiveTasks c) = c_syncEvents c"
  "c_posted (pullActiveTasks c) = c_posted c"
  "c_syncEvents (pullActiveDeliveries c) = c_syncEvents c"
  "c_posted (pullActiveDeliveries c) = c_posted c"
  using fetch_frame [of c]
  by (auto simp: pullActiveOrders_def pullActiveTasks_def pullActiveDeliveries_def
           simp del: fetch_frame split: prod.splits reply.splits)

lemma pullEntityState_frame [simp]:
  "c_syncEvents (pullEntityState ty i c) = c_syncEvents c"
  "c_posted (pullEntityState ty i c) = c_posted c"
  by (auto simp: pullEntityState_def split: entity_type.splits)

lemma reconcileEntity_frame [simp]:
  "c_syncEvents (reconcileEntity ev data c) = c_syncEvents c"
  "c_posted (reconcileEntity ev data c) = c_posted c"
  by (auto simp: reconcileEntity_def split: entity_type.splits option.splits)

lemma updateEvent_frame [simp]:
  "c_posted (updateEvent i f c) = c_posted c"
  "c_syncEvents (updateEvent i f c) = map (\<lambda>e. if e_id e = i then f e else e) (c_syncEvents c)"
  by (auto simp: updateEvent_def)

lemma markEventFailed_posted [simp]:
  "c_posted (markEventFailed i err c) = c_posted c"
  by (auto simp: markEventFailed_def split: option.splits)

text \<open>
  \<open>sameExcept I es es'\<close>: the table \<open>es'\<close> holds the events of \<open>es\<close>, in the same positions
  and with the same ids, and only events whose id is in \<open>I\<close> may differ.
\<close>

definition sameExcept :: "string set \<Rightarrow> sync_event list \<Rightarrow> sync_event list \<Rightarrow> bool" where
  "sameExcept I es es' = list_all2 (\<lambda>e e'. e_id e' = e_id e \<and> (e_id e \<notin> I \<longrightarrow> e' = e)) es es'"

lemma sameExcept_refl [simp]: "sameExcept I es es"
  by (simp add: sameExcept_def list_all2_same)

lemma sameExcept_trans:
  "sameExcept I es es' \<Longrightarrow> sameExcept J es' es'' \<Longrightarrow> sameExcept (I \<union> J) es es''"
proof -
  assume a: "sameExcept I es es'" and b: "sameExcept J es' es''"
  have "list_all2 (\<lambda>e e'. e_id e' = e_id e \<and> (e_id e \<notin> I \<union> J \<longrightarrow> e' = e)) es es''"
  proof (rule list_all2_trans [OF _ a [unfolded sameExcept_def] b [unfolded sameExcept_def]])
    fix x y z :: sync_event
    assume "e_id y = e_id x \<and> (e_id x \<notin> I \<longrightarrow> y = x)"
      and "e_id z = e_id y \<and> (e_id y \<notin> J \<longrightarrow> z = y)"
    then show "e_id z = e_id x \<and> (e_id x \<notin> I \<union> J \<longrightarrow> z = x)" by auto
  qed
  then show ?thesis by (simp add: sameExcept_def)
qed

lemma sameExcept_mono: "sameExcept I es es' \<Longrightarrow> I \<subseteq> J \<Longrightarrow> sameExcept J es es'"
  unfolding sameExcept_def by (erule list_all2_mono) auto

lemma sameExcept_ids: "sameExcept I es es' \<Longrightarrow> map e_id es' = map e_id es"
  unfolding sameExcept_def by (induction es es' rule: list_all2_induct) auto

lemma sameExcept_find:
  "sameExcept I es es' \<Longrightarrow> j \<notin> I \<Longrightarrow>
     find (\<lambda>e. e_id e = j) es' = find (\<lambda>e. e_id e = j) es"
  unfolding sameExcept_def by (induction es es' rule: list_all2_induct) auto

lemma sameExcept_filter:
  "sameExcept I es es' \<Longrightarrow> e \<in> set es \<Longrightarrow> e_id e \<notin> I \<Longrightarrow> e \<in> set es'"
  unfolding sameExcept_def by (induction es es' rule: list_all2_induct) auto

lemma sameExcept_update:
  "(\<And>e. e_id (f e) = e_id e) \<Longrightarrow>
     sameExcept {i} es (map (\<lambda>e. if e_id e = i then f e else e) es)"
  by (simp add: sameExcept_def list_all2_map2 list_all2_same)

lemma markEventSyncing_same: "sameExcept {i} (c_syncEvents c) (c_syncEvents (markEventSyncing i c))"
  by (simp add: markEventSyncing_def sameExcept_update)

lemma markEventSynced_same: "sameExcept {i} (c_syncEvents c) (c_syncEvents (markEventSynced i now c))"
  by (simp add: markEventSynced_def sameExcept_update)

lemma markEventFailed_same: "sameExcept {i} (c_syncEvents c) (c_syncEvents (markEventFailed i err c))"
  by (simp add: markEventFailed_def sameExcept_update split: option.splits)

lemma pushSingleEvent_same:
  "sameExcept {i} (c_syncEvents c) (c_syncEvents (pushSingleEvent now i c))"
proof (cases "find (\<lambda>e. e_id e = i) (c_syncEvents c)")
  case None
  then show ?thesis by (simp add: pushSingleEvent_def)
next
  case (Some ev)
  show ?thesis
  proof (cases "e_status ev = EvSynced")
    case True
    with Some show ?thesis by (simp add: pushSingleEvent_def)
  next
    case False
    obtain r c1 where f: "fetch (markEventSyncing i c) = (r, c1)"
      by (cases "fetch (markEventSyncing i c)")
    define c2 where "c2 = c1\<lparr>c_posted := c_posted c1 @ [(ev, r)]\<rparr>"
    have "c_syncEvents c1 = c_syncEvents (markEventSyncing i c)"
      using fetch_frame(1) [of "markEventSyncing i c"] f by simp
    then have c2: "sameExcept {i} (c_syncEvents c) (c_syncEvents c2)"
      using markEventSyncing_same [of i c] by (simp add: c2_def)
    have step: "sameExcept {i} (c_syncEvents c2) (c_syncEvents c3) \<Longrightarrow>
                sameExcept {i} (c_syncEvents c) (c_syncEvents c3)" for c3 :: client
      using sameExcept_trans [OF c2, of "{i}"] by simp
    have "pushSingleEvent now i c =
            (case r of
               Ok2xx data \<Rightarrow>
                 (let c3 = markEventSynced i now c2
                  in if bd_order data \<noteq> None \<or> bd_ok data then reconcileEntity ev data c3 else c3)
             | HttpStatus n err \<Rightarrow>
                 if n = 409 then pullEntityState (e_entityType ev) (e_entityId ev) (markEventSynced i now c2)
                 else if n \<ge> 400 \<and> n < 500 then markEventFailed i (ClientError n err) c2
                 else markEventFailed i (HttpError n) c2
             | NetworkError msg \<Rightarrow> markEventFailed i (NetworkFailure msg) c2)"
      unfolding c2_def using Some False f by (simp add: pushSingleEvent_def Let_def)
    then show ?thesis
      by (auto simp: Let_def split: reply.splits
               intro!: step markEventSynced_same markEventFailed_same)
  qed
qed


text \<open>The events a push posts: the event with the given id as it is read, unless synced.\<close>

definition pushed :: "string \<Rightarrow> client \<Rightarrow> sync_event list" where
  "pushed i c = (case find (\<lambda>e. e_id e = i) (c_syncEvents c) of
                   None \<Rightarrow> []
                 | Some e \<Rightarrow> if e_status e = EvSynced then [] else [e])"

lemma pushSingleEvent_posted:
  "map fst (c_posted (pushSingleEvent now i c)) = map fst (c_posted c) @ pushed i c"
proof (cases "find (\<lambda>e. e_id e = i) (c_syncEvents c)")
  case None
  then show ?thesis by (simp add: pushSingleEvent_def pushed_def)
next
  case (Some ev)
  show ?thesis
  proof (cases "e_status ev = EvSynced")
    case True
    with Some show ?thesis by (simp add: pushSingleEvent_def pushed_def)
  next
    case False
    obtain r c1 where f: "fetch (markEventSyncing i c) = (r, c1)"
      by (cases "fetch (markEventSyncing i c)")
    have "c_posted c1 = c_posted c"
      using fetch_frame(2) [of "markEventSyncing i c"] f
      by (simp add: markEventSyncing_def del: fetch_frame)
    then show ?thesis
      using Some False f
      by (auto simp: pushSingleEvent_def pushed_def Let_def markEventSynced_def
               split: reply.splits)
  qed
qed

lemma pushed_same:
  "sameExcept I (c_syncEvents c) (c_syncEvents c') \<Longrightarrow> j \<notin> I \<Longrightarrow> pushed j c' = pushed j c"
  by (simp add: pushed_def sameExcept_find)

lemma fold_push:
  "distinct ids \<Longrightarrow>
     sameExcept (set ids) (c_syncEvents c) (c_syncEvents (fold (pushSingleEvent now) ids c)) \<and>
     map fst (c_posted (fold (pushSingleEvent now) ids c))
       = map fst (c_posted c) @ concat (map (\<lambda>i. pushed i c) ids)"
proof (induction ids arbitrary: c)
  case Nil
  then show ?case by simp
next
  case (Cons i ids)
  let ?c = "pushSingleEvent now i c"
  have s1: "sameExcept {i} (c_syncEvents c) (c_syncEvents ?c)" by (rule pushSingleEvent_same)
  from Cons have d: "distinct ids" and ni: "i \<notin> set ids" by auto
  have same: "concat (map (\<lambda>j. pushed j ?c) ids) = concat (map (\<lambda>j. pushed j c) ids)"
  proof -
    have "map (\<lambda>j. pushed j ?c) ids = map (\<lambda>j. pushed j c) ids"
    proof (rule map_cong [OF refl])
      fix j assume "j \<in> set ids"
      with ni have "j \<notin> {i}" by auto
      then show "pushed j ?c = pushed j c" by (rule pushed_same [OF s1])
    qed
    then show ?thesis by (rule arg_cong)
  qed
  from Cons.IH [OF d, of ?c] sameExcept_trans [OF s1, of "set ids"]
  show ?case by (simp add: pushSingleEvent_posted same)
qed

lemma pushPending_push:
  "distinct ids \<Longrightarrow>
     \<exists>k. k \<le> length ids \<and>
       sameExcept (set ids) (c_syncEvents c) (c_syncEvents (pushPending now ids c)) \<and>
       map fst (c_posted (pushPending now ids c))
         = map fst (c_posted c) @ concat (map (\<lambda>i. pushed i c) (take k ids))"
proof (induction ids arbitrary: c)
  case Nil
  then show ?case by simp
next
  case (Cons i ids)
  show ?case
  proof (cases "c_onLine c")
    case False
    then have "pushPending now (i # ids) c = c" by simp
    then show ?thesis by (intro exI [of _ 0]) simp
  next
    case True
    let ?c = "pushSingleEvent now i c"
    have s1: "sameExcept {i} (c_syncEvents c) (c_syncEvents ?c)" by (rule pushSingleEvent_same)
    from Cons.prems have d: "distinct ids" and ni: "i \<notin> set ids" by auto
    from Cons.IH [OF d, of ?c] obtain k where k: "k \<le> length ids"
      and s2: "sameExcept (set ids) (c_syncEvents ?c) (c_syncEvents (pushPending now ids ?c))"
      and p: "map fst (c_posted (pushPending now ids ?c))
                = map fst (c_posted ?c) @ concat (map (\<lambda>j. pushed j ?c) (take k ids))"
      by blast
    have "map (\<lambda>j. pushed j ?c) (take k ids) = map (\<lambda>j. pushed j c) (take k ids)"
    proof (rule map_cong [OF refl])
      fix j assume "j \<in> set (take k ids)"
      with ni have "j \<notin> {i}" by (auto dest: in_set_takeD)
      then show "pushed j ?c = pushed j c" by (rule pushed_same [OF s1])
    qed
    then have same: "concat (map (\<lambda>j. pushed j ?c) (take k ids))
                       = concat (map (\<lambda>j. pushed j c) (take k ids))" by (rule arg_cong)
    have "pushPending now (i # ids) c = pushPending now ids ?c" using True by simp
    with k p same sameExcept_trans [OF s1 s2]
    show ?thesis by (intro exI [of _ "Suc k"]) (simp add: pushSingleEvent_posted)
  qed
qed

lemma find_distinct_id:
  "distinct (map e_id es) \<Longrightarrow> e \<in> set es \<Longrightarrow> find (\<lambda>x. e_id x = e_id e) es = Some e"
  by (induction es) (auto simp: image_iff)

lemma pushed_of_member:
  "distinct (map e_id (c_syncEvents c)) \<Longrightarrow> e \<in> set (c_syncEvents c) \<Longrightarrow>
     set (pushed (e_id e) c) \<subseteq> {e}"
  by (simp add: pushed_def find_distinct_id)


lemma distinct_map_insort_key:
  "distinct (map f (insort_key k x xs)) \<longleftrightarrow> f x \<notin> f ` set xs \<and> distinct (map f xs)"
  by (induction xs) (auto simp: set_insort_key)

lemma distinct_map_sort_key:
  "distinct (map f (sort_key k xs)) \<longleftrightarrow> distinct (map f xs)"
  by (induction xs) (auto simp: distinct_map_insort_key)

lemma sorted_events_ids:
  "distinct (map e_id es) \<Longrightarrow>
     distinct (map e_id (sort_key e_sequence (sort_key e_id (filter P es))))"
  by (simp add: distinct_map_sort_key distinct_map_filter)

lemma find_updated:
  "distinct (map e_id es) \<Longrightarrow> e \<in> set es \<Longrightarrow> e_id (f e) = e_id e \<Longrightarrow>
     find (\<lambda>x. e_id x = e_id e) (map (\<lambda>x. if e_id x = e_id e then f x else x) es) = Some (f e)"
  by (induction es) (auto simp: image_iff)

lemma id_determines_event:
  "distinct (map e_id es) \<Longrightarrow> e \<in> set es \<Longrightarrow> e' \<in> set es \<Longrightarrow> e_id e = e_id e' \<Longrightarrow> e = e'"
  by (induction es) (auto simp: image_iff)

lemma markEventFailed_result:
  assumes d: "distinct (map e_id (c_syncEvents c))" and m: "ev \<in> set (c_syncEvents c)"
  shows "find (\<lambda>e. e_id e = e_id ev) (c_syncEvents (markEventFailed (e_id ev) err c))
           = Some (ev\<lparr>e_status := (if 5 < e_retryCount ev + 1 then EvConflict else EvFailed),
                       e_lastError := Some err,
                       e_retryCount := e_retryCount ev + 1\<rparr>)"
proof -
  have f: "find (\<lambda>e. e_id e = e_id ev) (c_syncEvents c) = Some ev"
    using d m by (rule find_distinct_id)
  let ?f = "\<lambda>e. e\<lparr>e_status := (if e_retryCount ev \<ge> 5 then EvConflict else EvFailed),
                   e_lastError := Some err, e_retryCount := e_retryCount ev + 1\<rparr>"
  have "c_syncEvents (markEventFailed (e_id ev) err c)
          = map (\<lambda>x. if e_id x = e_id ev then ?f x else x) (c_syncEvents c)"
    using f by (simp add: markEventFailed_def)
  moreover have "find (\<lambda>x. e_id x = e_id ev) (map (\<lambda>x. if e_id x = e_id ev then ?f x else x) (c_syncEvents c))
                   = Some (?f ev)"
    using d m by (rule find_updated) simp
  moreover have "(5 \<le> e_retryCount ev) = (5 < e_retryCount ev + 1)" by arith
  ultimately show ?thesis by simp
qed

lemma pushed_status:
  assumes d: "distinct (map e_id (c_syncEvents c))"
    and ids: "set ids \<subseteq> e_id ` {e \<in> set (c_syncEvents c). e_status e = st}"
    and m: "e \<in> set (concat (map (\<lambda>i. pushed i c) ids))"
  shows "e_status e = st"
proof -
  from m obtain i where i: "i \<in> set ids" and e: "e \<in> set (pushed i c)" by auto
  from i ids obtain f where f: "f \<in> set (c_syncEvents c)" "e_status f = st" "i = e_id f" by auto
  from pushed_of_member [OF d f(1)] e f(3) have "e = f" by auto
  with f show ?thesis by simp
qed

lemma untouched_event:
  assumes d: "distinct (map e_id (c_syncEvents c))"
    and m: "ev \<in> set (c_syncEvents c)" and st: "e_status ev \<noteq> st"
    and s: "sameExcept (e_id ` {e \<in> set (c_syncEvents c). e_status e = st}) (c_syncEvents c) es'"
  shows "ev \<in> set es'"
proof -
  have "e_id ev \<notin> e_id ` {e \<in> set (c_syncEvents c). e_status e = st}"
  proof
    assume "e_id ev \<in> e_id ` {e \<in> set (c_syncEvents c). e_status e = st}"
    then obtain f where "f \<in> set (c_syncEvents c)" "e_status f = st" "e_id ev = e_id f" by auto
    with id_determines_event [OF d m] st show False by auto
  qed
  with s m show ?thesis by (rule sameExcept_filter)
qed

text \<open>
  Claim C7. Marking an event failed adds 1 to its retry count and records the error; the
  status becomes \<open>conflict\<close> when the new count exceeds 5 and \<open>failed\<close> otherwise. A run
  of the push loop posts only events that are \<open>pending\<close> or \<open>failed\<close> when they are read,
  and leaves every other event (in particular every \<open>conflict\<close> event) as it is. Event ids
  are the primary key of the table, hence distinct.
\<close>

theorem conflict_never_retried:
  assumes d: "distinct (map e_id (c_syncEvents c))"
  shows "(\<forall>ev \<in> set (c_syncEvents c).
            find (\<lambda>e. e_id e = e_id ev) (c_syncEvents (markEventFailed (e_id ev) err c))
              = Some (ev\<lparr>e_status := (if 5 < e_retryCount ev + 1 then EvConflict else EvFailed),
                          e_lastError := Some err,
                          e_retryCount := e_retryCount ev + 1\<rparr>))
       \<and> (\<forall>e \<in> set (drop (length (c_posted c)) (map fst (c_posted (pushEvents now c)))).
            e_status e = EvPending \<or> e_status e = EvFailed)
       \<and> (\<forall>ev \<in> set (c_syncEvents c).
            e_status ev \<noteq> EvPending \<and> e_status ev \<noteq> EvFailed
              \<longrightarrow> ev \<in> set (c_syncEvents (pushEvents now c)))"
proof (intro conjI ballI impI)
  fix ev assume "ev \<in> set (c_syncEvents c)"
  with d show "find (\<lambda>e. e_id e = e_id ev) (c_syncEvents (markEventFailed (e_id ev) err c))
              = Some (ev\<lparr>e_status := (if 5 < e_retryCount ev + 1 then EvConflict else EvFailed),
                          e_lastError := Some err,
                          e_retryCount := e_retryCount ev + 1\<rparr>)"
    by (rule markEventFailed_result)
next
  define c0 where "c0 = c\<lparr>c_isSyncing := True\<rparr>"
  define fids where "fids = map e_id (getFailedEvents c0)"
  define c1 where "c1 = fold (pushSingleEvent now) fids c0"
  define pids where "pids = map e_id (getPendingEvents c1)"
  define c2 where "c2 = pushPending now pids c1"
  have run: "c_isSyncing c \<or> \<not> c_onLine c \<Longrightarrow> pushEvents now c = c"
    "\<not> (c_isSyncing c \<or> \<not> c_onLine c) \<Longrightarrow> pushEvents now c = c2\<lparr>c_isSyncing := False\<rparr>"
    by (simp_all add: pushEvents_def Let_def c0_def fids_def c1_def pids_def c2_def)
  have d0: "distinct (map e_id (c_syncEvents c0))" using d by (simp add: c0_def)
  have fd: "distinct fids" unfolding fids_def getFailedEvents_def using d0 by (rule sorted_events_ids)
  have fset: "set fids = e_id ` {e \<in> set (c_syncEvents c0). e_status e = EvFailed}"
    by (auto simp: fids_def getFailedEvents_def)
  from fold_push [OF fd, of c0 now]
  have s1: "sameExcept (set fids) (c_syncEvents c0) (c_syncEvents c1)"
    and p1: "map fst (c_posted c1) = map fst (c_posted c0) @ concat (map (\<lambda>i. pushed i c0) fids)"
    by (simp_all add: c1_def)
  have d1: "distinct (map e_id (c_syncEvents c1))" using sameExcept_ids [OF s1] d0 by simp
  have pd: "distinct pids" unfolding pids_def getPendingEvents_def using d1 by (rule sorted_events_ids)
  have pset: "set pids = e_id ` {e \<in> set (c_syncEvents c1). e_status e = EvPending}"
    by (auto simp: pids_def getPendingEvents_def)
  from pushPending_push [OF pd, of c1 now] obtain k where
    s2: "sameExcept (set pids) (c_syncEvents c1) (c_syncEvents c2)"
    and p2: "map fst (c_posted c2) = map fst (c_posted c1) @ concat (map (\<lambda>i. pushed i c1) (take k pids))"
    by (auto simp: c2_def)
  {
    fix e assume e: "e \<in> set (drop (length (c_posted c)) (map fst (c_posted (pushEvents now c))))"
    show "e_status e = EvPending \<or> e_status e = EvFailed"
    proof (cases "c_isSyncing c \<or> \<not> c_onLine c")
      case True
      with e run(1) show ?thesis by simp
    next
      case False
      have "map fst (c_posted (pushEvents now c))
              = map fst (c_posted c) @ concat (map (\<lambda>i. pushed i c0) fids)
                  @ concat (map (\<lambda>i. pushed i c1) (take k pids))"
        using run(2) [OF False] p1 p2 by (simp add: c0_def)
      with e have "e \<in> set (concat (map (\<lambda>i. pushed i c0) fids))
                 \<or> e \<in> set (concat (map (\<lambda>i. pushed i c1) (take k pids)))"
        by (simp del: set_concat)
      then show ?thesis
      proof
        assume "e \<in> set (concat (map (\<lambda>i. pushed i c0) fids))"
        with pushed_status [OF d0, of fids EvFailed e] fset show ?thesis by simp
      next
        assume "e \<in> set (concat (map (\<lambda>i. pushed i c1) (take k pids)))"
        moreover have "set (take k pids) \<subseteq> e_id ` {e \<in> set (c_syncEvents c1). e_status e = EvPending}"
          using pset set_take_subset [of k pids] by simp
        ultimately show ?thesis using pushed_status [OF d1, of "take k pids" EvPending e] by simp
      qed
    qed
  }
  {
    fix ev assume m: "ev \<in> set (c_syncEvents c)"
      and st: "e_status ev \<noteq> EvPending \<and> e_status ev \<noteq> EvFailed"
    show "ev \<in> set (c_syncEvents (pushEvents now c))"
    proof (cases "c_isSyncing c \<or> \<not> c_onLine c")
      case True
      with m run(1) show ?thesis by simp
    next
      case False
      have m0: "ev \<in> set (c_syncEvents c0)" using m by (simp add: c0_def)
      have m1: "ev \<in> set (c_syncEvents c1)"
        using untouched_event [OF d0 m0, of EvFailed] st s1 fset by simp
      have "ev \<in> set (c_syncEvents c2)"
        using untouched_event [OF d1 m1, of EvPending] st s2 pset by simp
      with run(2) [OF False] show ?thesis by simp
    qed
  }
qed


text \<open>A queue with a failed event at its fifth retry, a conflict event and a pending event.\<close>

definition retryClient :: client where
  "retryClient =
     queueClient [mkEvent ''e1'' EvFailed 5 1, mkEvent ''e2'' EvConflict 6 2, mkEvent ''e3'' EvPending 0 3]
       [reply_timeout, reply_ok]"

theorem conflict_never_retried_witness:
  "distinct (map e_id (c_syncEvents retryClient))
   \<and> find (\<lambda>e. e_id e = ''e1'')
          (c_syncEvents (markEventFailed ''e1'' (HttpError 500) retryClient))
       = Some ((mkEvent ''e1'' EvConflict 6 1)\<lparr>e_lastError := Some (HttpError 500)\<rparr>)
   \<and> find (\<lambda>e. e_id e = ''e3'')
          (c_syncEvents (markEventFailed ''e3'' (HttpError 500) retryClient))
       = Some ((mkEvent ''e3'' EvFailed 1 3)\<lparr>e_lastError := Some (HttpError 500)\<rparr>)
   \<and> list_all (\<lambda>e. e_status e = EvPending \<or> e_status e = EvFailed)
         (drop (length (c_posted retryClient)) (map fst (c_posted (pushEvents 1000 retryClient))))
   \<and> mkEvent ''e2'' EvConflict 6 2 \<in> set (c_syncEvents (pushEvents 1000 retryClient))"
proof -
  have h: "distinct (map e_id (c_syncEvents retryClient))"
    by (simp add: retryClient_def client_defs)
  note t = conflict_never_retried [OF h, of "HttpError 500" 1000]
  have m1: "mkEvent ''e1'' EvFailed 5 1 \<in> set (c_syncEvents retryClient)"
    and m2: "mkEvent ''e2'' EvConflict 6 2 \<in> set (c_syncEvents retryClient)"
    and m3: "mkEvent ''e3'' EvPending 0 3 \<in> set (c_syncEvents retryClient)"
    by (simp_all add: retryClient_def queueClient_def mkClient_def)
  from t have a: "\<forall>ev \<in> set (c_syncEvents retryClient).
            find (\<lambda>e. e_id e = e_id ev)
                 (c_syncEvents (markEventFailed (e_id ev) (HttpError 500) retryClient))
              = Some (ev\<lparr>e_status := (if 5 < e_retryCount ev + 1 then EvConflict else EvFailed),
                          e_lastError := Some (HttpError 500),
                          e_retryCount := e_retryCount ev + 1\<rparr>)"
    by (rule conjunct1)
  from t have b: "\<forall>e \<in> set (drop (length (c_posted retryClient))
                       (map fst (c_posted (pushEvents 1000 retryClient)))).
            e_status e = EvPending \<or> e_status e = EvFailed"
    by (rule conjunct1 [OF conjunct2])
  from t have c: "\<forall>ev \<in> set (c_syncEvents retryClient).
            e_status ev \<noteq> EvPending \<and> e_status ev \<noteq> EvFailed
              \<longrightarrow> ev \<in> set (c_syncEvents (pushEvents 1000 retryClient))"
    by (rule conjunct2 [OF conjunct2])
  have a1: "find (\<lambda>e. e_id e = ''e1'')
              (c_syncEvents (markEventFailed ''e1'' (HttpError 500) retryClient))
            = Some ((mkEvent ''e1'' EvConflict 6 1)\<lparr>e_lastError := Some (HttpError 500)\<rparr>)"
    using bspec [OF a m1] by (simp add: mkEvent_def)
  have a3: "find (\<lambda>e. e_id e = ''e3'')
              (c_syncEvents (markEventFailed ''e3'' (HttpError 500) retryClient))
            = Some ((mkEvent ''e3'' EvFailed 1 3)\<lparr>e_lastError := Some (HttpError 500)\<rparr>)"
    using bspec [OF a m3] by (simp add: mkEvent_def)
  have b': "list_all (\<lambda>e. e_status e = EvPending \<or> e_status e = EvFailed)
         (drop (length (c_posted retryClient)) (map fst (c_posted (pushEvents 1000 retryClient))))"
    using b by (simp only: list_all_iff)
  have c2: "mkEvent ''e2'' EvConflict 6 2 \<in> set (c_syncEvents (pushEvents 1000 retryClient))"
    using bspec [OF c m2] by (simp add: mkEvent_def)
  from h a1 a3 b' c2 show ?thesis by (intro conjI)
qed

subsection \<open>The order in which events reach the server\<close>

text \<open>
  The sequence numbers of the events the server has accepted (answered with a 2xx status),
  in the order of their acceptance.
\<close>

definition accepted :: "reply \<Rightarrow> bool" where
  "accepted r = (case r of Ok2xx data \<Rightarrow> True | HttpStatus n err \<Rightarrow> False | NetworkError msg \<Rightarrow> False)"

definition applied :: "client \<Rightarrow> nat list" where
  "applied c = map (\<lambda>p. e_sequence (fst p)) (filter (\<lambda>p. accepted (snd p)) (c_posted c))"

text \<open>
  Three pending events with sequences 1, 2, 3. The request for event 2 times out; the
  other requests succeed.
\<close>

definition threeEventClient :: client where
  "threeEventClient =
     queueClient [mkEvent ''e1'' EvPending 0 1, mkEvent ''e2'' EvPending 0 2,
                  mkEvent ''e3'' EvPending 0 3]
       [reply_ok, reply_timeout, reply_ok, reply_ok]"

text \<open>
  Claim C5, on the code. After the failure of event 2 the first round goes on to event 3,
  and the second round retries event 2: the server applies the events in the order 1, 3, 2.
\<close>

theorem events_applied_out_of_sequence:
  "map e_sequence (getPendingEvents threeEventClient) = [1, 2, 3]
   \<and> applied (pushEvents 1000 threeEventClient) = [1, 3]
   \<and> map (\<lambda>e. (e_sequence e, e_status e)) (c_syncEvents (pushEvents 1000 threeEventClient))
       = [(1, EvSynced), (2, EvFailed), (3, EvSynced)]
   \<and> applied (pushEvents 6000 (pushEvents 1000 threeEventClient)) = [1, 3, 2]"
  by (simp add: threeEventClient_def client_defs sync_defs applied_def accepted_def)

section \<open>Pull and unsynced local edits\<close>

lemma find_put:
  "find (\<lambda>x. key x = key r) (put key r tbl) = Some r"
proof (cases "list_ex (\<lambda>x. key x = key r) tbl")
  case True
  then have "find (\<lambda>x. key x = key r) (map (\<lambda>x. if key x = key r then r else x) tbl) = Some r"
    by (induction tbl) auto
  with True show ?thesis by (simp add: put_def)
next
  case False
  then have "find (\<lambda>x. key x = key r) (tbl @ [r]) = Some r"
    by (induction tbl) auto
  with False show ?thesis by (simp add: put_def)
qed

text \<open>The sibling paths: a task or a delivery that is not \<open>synced\<close> is skipped.\<close>

lemma pullTask_keeps_unsynced:
  "find (\<lambda>t. t_id t = t_id task) (c_tasks c) = Some existing \<Longrightarrow>
     lt_syncStatus existing \<noteq> SSynced \<Longrightarrow> pullTask task c = c"
  by (simp add: pullTask_def)

lemma pullDelivery_keeps_unsynced:
  "find (\<lambda>r. dl_id r = dl_id del) (c_deliveries c) = Some existing \<Longrightarrow>
     ld_syncStatus existing \<noteq> SSynced \<Longrightarrow> pullDelivery del c = c"
  by (simp add: pullDelivery_def)

text \<open>
  Claim C4, on the code. \<open>pullActiveOrders\<close> skips an order only when its local copy is
  \<open>local\<close>: a local copy in state \<open>modified\<close> is replaced by the server's copy and
  marked \<open>synced\<close>, so the unsynced local edit is lost.
\<close>

theorem pull_overwrites_modified_order:
  assumes w: "c_wire c = \<lparr>x_reply = Ok2xx data, x_onLineAfter = True\<rparr> # rest"
    and o: "bd_orders data = [ord]"
    and f: "find (\<lambda>r. od_id r = od_id ord) (c_orders c) = Some existing"
    and m: "lo_syncStatus existing = SModified"
  shows "find (\<lambda>r. od_id r = od_id ord) (c_orders (pullActiveOrders c))
           = Some (order_data.extend (order_data.truncate ord)
                     (local_order.fields SSynced None (od_orderNumber ord)))"
proof -
  let ?new = "order_data.extend (order_data.truncate ord)
                (local_order.fields SSynced None (od_orderNumber ord))"
  have k: "od_id ?new = od_id ord"
    by (simp add: order_data.extend_def order_data.truncate_def)
  have "c_orders (pullActiveOrders c) = put od_id ?new (c_orders c)"
    using w o f m by (simp add: pullActiveOrders_def fetch_def pullOrder_def storeOrder_def)
  with find_put [of od_id ?new "c_orders c"] k show ?thesis by simp
qed

text \<open>
  The local order was marked ready by an offline completion and is \<open>modified\<close>; the
  server, which has not received the completion yet, still reports it as preparing.
\<close>

definition serverOrder :: "string \<Rightarrow> order_status \<Rightarrow> server_order" where
  "serverOrder i st =
     \<lparr>od_id = i, od_tenantId = ''t1'', od_orderNumber = Some 7, od_status = st, od_notes = None,
      od_priority = 0, od_estimatedReadyAt = None, od_actualReadyAt = None, so_items = []\<rparr>"

definition modifiedOrderClient :: client where
  "modifiedOrderClient =
     mkClient [mkLocalOrder ''o1'' OReady SModified] [] []
       [\<lparr>x_reply = Ok2xx (emptyBody\<lparr>bd_orders := [serverOrder ''o1'' OPreparing]\<rparr>),
         x_onLineAfter = True\<rparr>]"

theorem pull_overwrites_modified_order_witness:
  "map (\<lambda>r. (od_id r, od_status r, lo_syncStatus r)) (c_orders modifiedOrderClient)
     = [(''o1'', OReady, SModified)]
   \<and> map (\<lambda>r. (od_id r, od_status r, lo_syncStatus r)) (c_orders (pullActiveOrders modifiedOrderClient))
     = [(''o1'', OPreparing, SSynced)]
   \<and> find (\<lambda>r. od_id r = ''o1'') (c_orders (pullActiveOrders modifiedOrderClient))
     = Some (order_data.extend (order_data.truncate (serverOrder ''o1'' OPreparing))
               (local_order.fields SSynced None (Some 7)))"
proof -
  have w: "c_wire modifiedOrderClient
             = \<lparr>x_reply = Ok2xx (emptyBody\<lparr>bd_orders := [serverOrder ''o1'' OPreparing]\<rparr>),
                x_onLineAfter = True\<rparr> # []"
    by (simp add: modifiedOrderClient_def mkClient_def)
  have o: "bd_orders (emptyBody\<lparr>bd_orders := [serverOrder ''o1'' OPreparing]\<rparr>)
             = [serverOrder ''o1'' OPreparing]" by simp
  have f: "find (\<lambda>r. od_id r = od_id (serverOrder ''o1'' OPreparing)) (c_orders modifiedOrderClient)
             = Some (mkLocalOrder ''o1'' OReady SModified)"
    by (simp add: modifiedOrderClient_def mkClient_def mkLocalOrder_def serverOrder_def)
  have m: "lo_syncStatus (mkLocalOrder ''o1'' OReady SModified) = SModified"
    by (simp add: mkLocalOrder_def)
  have a: "map (\<lambda>r. (od_id r, od_status r, lo_syncStatus r)) (c_orders modifiedOrderClient)
             = [(''o1'', OReady, SModified)]"
    by (simp add: modifiedOrderClient_def mkClient_def mkLocalOrder_def)
  have b: "map (\<lambda>r. (od_id r, od_status r, lo_syncStatus r))
             (c_orders (pullActiveOrders modifiedOrderClient)) = [(''o1'', OPreparing, SSynced)]"
    by (simp add: modifiedOrderClient_def client_defs serverOrder_def pullActiveOrders_def
          fetch_def pullOrder_def storeOrder_def put_def order_data.extend_def
          order_data.truncate_def local_order.fields_def)
  have c: "find (\<lambda>r. od_id r = ''o1'') (c_orders (pullActiveOrders modifiedOrderClient))
     = Some (order_data.extend (order_data.truncate (serverOrder ''o1'' OPreparing))
               (local_order.fields SSynced None (Some 7)))"
    using pull_overwrites_modified_order [OF w o f m] by (simp add: serverOrder_def)
  from a b c show ?thesis by (intro conjI)
qed

text \<open>By contrast, the same pull of a modified task leaves the local task as it is.\<close>

definition modifiedTaskClient :: client where
  "modifiedTaskClient =
     mkClient [] [mkLocalTask (mkTask ''a'' Done []) SModified] []
       [\<lparr>x_reply = Ok2xx (emptyBody\<lparr>bd_tasks :=
            [task_instance.extend (mkTask ''a'' Queued []) (server_task.fields [])]\<rparr>),
         x_onLineAfter = True\<rparr>]"

lemma pull_keeps_modified_task:
  "c_tasks (pullActiveTasks modifiedTaskClient) = c_tasks modifiedTaskClient"
  by (simp add: modifiedTaskClient_def client_defs example_defs pullActiveTasks_def fetch_def
        pullTask_def server_task.fields_def)

end
